theory Spec2Isabelle
  imports Main
begin

section \<open>The lexical analyser of pdf4py: \<^verbatim>\<open>pdfpy/_lexer.py\<close> and \<^verbatim>\<open>pdfpy/_charset.py\<close>\<close>

text \<open>
  A byte is a \<^typ>\<open>char\<close> (eight bits); the integer Python obtains by indexing a
  \<^verbatim>\<open>bytes\<close> object is \<open>of_char\<close> of it. A Python \<^verbatim>\<open>str\<close> is the list of its code
  points.
\<close>

type_synonym byte = char
type_synonym pystr = "nat list"

subsection \<open>\<^verbatim>\<open>_charset.py\<close>\<close>

abbreviation LINE_FEED :: byte where "LINE_FEED \<equiv> CHR 0x0A"
abbreviation HORIZONTAL_TAB :: byte where "HORIZONTAL_TAB \<equiv> CHR 0x09"
abbreviation FORM_FEED :: byte where "FORM_FEED \<equiv> CHR 0x0C"
abbreviation BACKSPACE :: byte where "BACKSPACE \<equiv> CHR 0x08"
abbreviation CARRIAGE_RETURN :: byte where "CARRIAGE_RETURN \<equiv> CHR 0x0D"
abbreviation OPEN_PARENTHESIS :: byte where "OPEN_PARENTHESIS \<equiv> CHR ''(''"
abbreviation CLOSE_PARENTHESIS :: byte where "CLOSE_PARENTHESIS \<equiv> CHR '')''"
abbreviation OPEN_ANGLE_BRACKET :: byte where "OPEN_ANGLE_BRACKET \<equiv> CHR ''<''"
abbreviation CLOSE_ANGLE_BRACKET :: byte where "CLOSE_ANGLE_BRACKET \<equiv> CHR ''>''"
abbreviation OPEN_SQUARE_BRACKET :: byte where "OPEN_SQUARE_BRACKET \<equiv> CHR ''[''"
abbreviation CLOSE_SQUARE_BRACKET :: byte where "CLOSE_SQUARE_BRACKET \<equiv> CHR '']''"
abbreviation FORWARD_SLASH :: byte where "FORWARD_SLASH \<equiv> CHR ''/''"
abbreviation BACK_SLASH :: byte where "BACK_SLASH \<equiv> CHR 0x5C"
abbreviation OPEN_CURLY_BRACKET :: byte where "OPEN_CURLY_BRACKET \<equiv> CHR ''{''"
abbreviation CLOSE_CURLY_BRAKET :: byte where "CLOSE_CURLY_BRAKET \<equiv> CHR ''}''"
abbreviation PERCENTAGE :: byte where "PERCENTAGE \<equiv> CHR ''%''"
abbreviation POINT :: byte where "POINT \<equiv> CHR ''.''"
abbreviation PLUS :: byte where "PLUS \<equiv> CHR ''+''"
abbreviation MINUS :: byte where "MINUS \<equiv> CHR ''-''"
abbreviation KEYWORD_REFERENCE :: byte where "KEYWORD_REFERENCE \<equiv> CHR ''R''"
abbreviation FREE_ENTRY_KEYWORD :: byte where "FREE_ENTRY_KEYWORD \<equiv> CHR ''f''"
abbreviation INUSE_ENTRY_KEYWORD :: byte where "INUSE_ENTRY_KEYWORD \<equiv> CHR ''n''"
abbreviation NUMBER_SIGN :: byte where "NUMBER_SIGN \<equiv> CHR ''#''"
abbreviation SPACE :: byte where "SPACE \<equiv> CHR 0x20"

definition SINGLETONS :: "byte set" where
  "SINGLETONS = {OPEN_CURLY_BRACKET, CLOSE_CURLY_BRAKET, OPEN_SQUARE_BRACKET,
     CLOSE_SQUARE_BRACKET, INUSE_ENTRY_KEYWORD, FREE_ENTRY_KEYWORD, KEYWORD_REFERENCE}"

definition KEYWORDS :: "byte list list" where
  "KEYWORDS = [''<<'', ''>>'', ''endobj'', ''obj'', ''trailer'', ''xref'', ''null'',
     ''startxref'', ''endstream'']"

definition is_digit :: "byte \<Rightarrow> bool" where
  "is_digit x = (48 \<le> (of_char x :: nat) \<and> (of_char x :: nat) < 58)"

definition is_hex_digit :: "byte \<Rightarrow> bool" where
  "is_hex_digit x =
     ((48 \<le> (of_char x :: nat) \<and> (of_char x :: nat) < 58)
    \<or> (65 \<le> (of_char x :: nat) \<and> (of_char x :: nat) < 71)
    \<or> (97 \<le> (of_char x :: nat) \<and> (of_char x :: nat) < 103))"

text \<open>\<^verbatim>\<open>hex_to_number\<close> raises \<^verbatim>\<open>ValueError\<close> on any other byte: \<open>None\<close> here.\<close>

definition hex_to_number :: "byte \<Rightarrow> nat option" where
  "hex_to_number x =
     (if 48 \<le> (of_char x :: nat) \<and> (of_char x :: nat) < 58 then Some (of_char x - 48)
      else if 65 \<le> (of_char x :: nat) \<and> (of_char x :: nat) < 71 then Some (of_char x - 55)
      else if 97 \<le> (of_char x :: nat) \<and> (of_char x :: nat) < 103 then Some (of_char x - 87)
      else None)"

text \<open>\<^verbatim>\<open>STRING_ESCAPE_SEQUENCES.get(x, x)\<close>, and the values of that dictionary.\<close>

definition STRING_ESCAPE_SEQUENCES_get :: "byte \<Rightarrow> byte" where
  "STRING_ESCAPE_SEQUENCES_get x =
     (if x = CHR ''n'' then LINE_FEED
      else if x = CHR ''r'' then CARRIAGE_RETURN
      else if x = CHR ''b'' then BACKSPACE
      else if x = CHR ''t'' then HORIZONTAL_TAB
      else if x = CHR ''f'' then FORM_FEED
      else x)"

definition STRING_ESCAPE_SEQUENCES_values :: "byte list" where
  "STRING_ESCAPE_SEQUENCES_values =
     [LINE_FEED, CARRIAGE_RETURN, BACKSPACE, HORIZONTAL_TAB, FORM_FEED]"

definition BLANKS :: "byte set" where
  "BLANKS = {CHR 0x00, CHR 0x09, CHR 0x0A, CHR 0x0C, CHR 0x0D, CHR 0x20}"

subsection \<open>Python indexing and slicing\<close>

text \<open>
  \<^verbatim>\<open>xs[i]\<close>: a negative index counts from the end, an index out of range raises
  \<^verbatim>\<open>IndexError\<close> (\<open>None\<close>). \<^verbatim>\<open>xs[a:b]\<close> never raises: both bounds are brought into
  \<open>[0, len]\<close> first.
\<close>

definition py_getitem :: "'a list \<Rightarrow> int \<Rightarrow> 'a option" where
  "py_getitem xs i =
     (let n = int (length xs); j = (if i < 0 then n + i else i)
      in if 0 \<le> j \<and> j < n then Some (xs ! nat j) else None)"

definition py_bound :: "int \<Rightarrow> int \<Rightarrow> int" where
  "py_bound n i = (if i < 0 then max 0 (n + i) else min i n)"

definition py_slice :: "'a list \<Rightarrow> int \<Rightarrow> int \<Rightarrow> 'a list" where
  "py_slice xs a b =
     (let n = int (length xs); a' = py_bound n a; b' = py_bound n b
      in take (nat (b' - a')) (drop (nat a') xs))"

subsection \<open>Errors and lexemes\<close>

text \<open>
  The messages of \<^verbatim>\<open>PDFLexicalError\<close>. The exception carries the message, the absolute
  position of the error, the bytes around it and the column of the caret, which
  \<^verbatim>\<open>__raise_lexer_error\<close> formats into one string.
\<close>

datatype lexical_message =
    ExpectedCloseAngle
  | NotHexadecimalDigit byte
  | CarriageReturnWithoutLineFeed
  | InvalidCharactersSequence

datatype error =
    StopIteration
  | PDFLexicalError lexical_message int "byte list" int
  | ValueError
  | IndexError
  | UnicodeDecodeError
  | UnboundLocalError
  | NoMoveInHistory

text \<open>
  What \<^verbatim>\<open>__next__\<close> returns: \<^verbatim>\<open>int\<close>, \<^verbatim>\<open>float\<close>, \<^verbatim>\<open>bool\<close>, \<^verbatim>\<open>str\<close>, the four named
  tuples, and the closure \<^verbatim>\<open>read_stream\<close>, which is determined by the \<^verbatim>\<open>streamPos\<close> it
  captured. A \<^verbatim>\<open>float\<close> is kept as the decimal text handed to \<^verbatim>\<open>float()\<close>; the binary
  rounding is not part of the model.
\<close>

datatype lexeme =
    LInt int
  | LFloat "byte list"
  | LBool bool
  | LStr pystr
  | PDFName pystr
  | PDFKeyword "byte list"
  | PDFHexString "byte list"
  | PDFSingleton byte
  | LStream int

subsection \<open>\<^verbatim>\<open>class Seekable\<close>\<close>

record seekable =
  sk_source :: "byte list"
  sk_pos :: int
  sk_len :: int

definition Seekable_init :: "byte list \<Rightarrow> seekable" where
  "Seekable_init obj = \<lparr>sk_source = obj, sk_pos = 0, sk_len = int (length obj)\<rparr>"

text \<open>
  \<^verbatim>\<open>read\<close> returns \<^verbatim>\<open>b''\<close> at the end, a one-element list for \<open>n = 1\<close> and a slice
  otherwise; all three are byte lists here.
\<close>

definition Seekable_read :: "int \<Rightarrow> seekable \<Rightarrow> (error + byte list) \<times> seekable" where
  "Seekable_read n sk =
     (if sk_pos sk = sk_len sk then (Inr [], sk)
      else if n = 1 then
        (case py_getitem (sk_source sk) (sk_pos sk) of
           None \<Rightarrow> (Inl IndexError, sk)
         | Some b \<Rightarrow> (Inr [b], sk\<lparr>sk_pos := sk_pos sk + 1\<rparr>))
      else
        (let n' = (if n \<le> 0 then sk_len sk else n);
             val = py_slice (sk_source sk) (sk_pos sk) (sk_pos sk + n')
         in (Inr val, sk\<lparr>sk_pos := sk_pos sk + int (length val)\<rparr>)))"

definition Seekable_seek :: "int \<Rightarrow> int \<Rightarrow> seekable \<Rightarrow> seekable" where
  "Seekable_seek off whence sk =
     (let p = (if whence = 0 then off
               else if whence = 1 then sk_pos sk + off
               else sk_len sk + off);
          p1 = (if p < 0 then 0 else p);
          p2 = (if p1 > sk_len sk then sk_len sk else p1)
      in sk\<lparr>sk_pos := p2\<rparr>)"

definition Seekable_tell :: "seekable \<Rightarrow> int" where
  "Seekable_tell sk = sk_pos sk"

text \<open>The invariant of the cursor, and a run of cursor operations.\<close>

definition seekable_inv :: "seekable \<Rightarrow> bool" where
  "seekable_inv sk =
     (sk_len sk = int (length (sk_source sk)) \<and> 0 \<le> sk_pos sk \<and> sk_pos sk \<le> sk_len sk)"

datatype cursor_op = Read int | Seek int int | Tell

datatype cursor_result = Bytes "byte list" | Failed error | Position int | Done

fun cursor_step :: "cursor_op \<Rightarrow> seekable \<Rightarrow> cursor_result \<times> seekable" where
  "cursor_step (Read n) sk =
     (case Seekable_read n sk of
        (Inl e, sk') \<Rightarrow> (Failed e, sk')
      | (Inr v, sk') \<Rightarrow> (Bytes v, sk'))"
| "cursor_step (Seek off whence) sk = (Done, Seekable_seek off whence sk)"
| "cursor_step Tell sk = (Position (Seekable_tell sk), sk)"

fun cursor_run :: "cursor_op list \<Rightarrow> seekable \<Rightarrow> cursor_result list \<times> seekable" where
  "cursor_run [] sk = ([], sk)"
| "cursor_run (x # xs) sk =
     (let (r, sk') = cursor_step x sk; (rs, sk'') = cursor_run xs sk' in (r # rs, sk''))"

definition result_ok :: "seekable \<Rightarrow> cursor_result \<Rightarrow> bool" where
  "result_ok sk r =
     (case r of
        Failed e \<Rightarrow> False
      | Position p \<Rightarrow> 0 \<le> p \<and> p \<le> sk_len sk
      | _ \<Rightarrow> True)"

subsection \<open>\<^verbatim>\<open>class Lexer\<close>: state and results\<close>

record lexer =
  source :: seekable
  lexer_length :: int
  current :: byte
  lexemesBuffer :: "lexeme list"
  movesHistory :: "(lexeme option \<times> int) list"
  contextSize :: int
  ended :: bool
  currentLexeme :: "lexeme option"

text \<open>
  A method either raises, leaving the object in the state reached at the \<^verbatim>\<open>raise\<close>, or
  returns a value and the state.
\<close>

datatype 'a outcome = Raised error lexer | Returned 'a lexer

text \<open>
  \<^verbatim>\<open>Lexer.__init__\<close> on a \<^verbatim>\<open>bytes\<close> source. \<^verbatim>\<open>self.__source.read(1)[0]\<close> indexes what
  \<^verbatim>\<open>read\<close> returned.
\<close>

definition Lexer_init :: "byte list \<Rightarrow> int \<Rightarrow> error + lexer" where
  "Lexer_init obj cs =
     (let sk0 = Seekable_init obj;
          cpos = Seekable_tell sk0;
          sk1 = Seekable_seek 0 2 sk0;
          len = Seekable_tell sk1;
          sk2 = Seekable_seek cpos 0 sk1
      in case Seekable_read 1 sk2 of
           (Inl e, sk3) \<Rightarrow> Inl e
         | (Inr v, sk3) \<Rightarrow>
             (case v of
                [] \<Rightarrow> Inl IndexError
              | b # _ \<Rightarrow>
                  Inr \<lparr>source = sk3, lexer_length = len, current = b, lexemesBuffer = [],
                       movesHistory = [], contextSize = cs, ended = False,
                       currentLexeme = None\<rparr>))"


definition get_context :: "lexer \<Rightarrow> (byte list \<times> int \<times> int) outcome" where
  "get_context s =
     (let errorPosition = Seekable_tell (source s);
          contextSideSize0 = contextSize s div 2;
          contextStart0 = errorPosition - contextSideSize0;
          contextSideSize =
            (if contextStart0 < 0 then contextSideSize0 + contextStart0 else contextSideSize0);
          contextStart = (if contextStart0 < 0 then 0 else contextStart0);
          sk1 = Seekable_seek contextStart 0 (source s)
      in case Seekable_read (contextSize s) sk1 of
           (Inl e, sk2) \<Rightarrow> Raised e (s\<lparr>source := sk2\<rparr>)
         | (Inr context, sk2) \<Rightarrow>
             (let escapedOccurrences =
                    sum_list (map (\<lambda>x. int (count_list (py_slice context 0 contextSideSize) x))
                                  STRING_ESCAPE_SEQUENCES_values);
                  errorRelativePosition = contextSideSize + escapedOccurrences + 1;
                  sk3 = Seekable_seek errorPosition 0 sk2
              in Returned (context, errorPosition, errorRelativePosition)
                   (s\<lparr>source := sk3\<rparr>)))"

definition raise_lexer_error :: "lexical_message \<Rightarrow> lexer \<Rightarrow> 'a outcome" where
  "raise_lexer_error msg s =
     (case get_context s of
        Raised e s' \<Rightarrow> Raised e s'
      | Returned (context, errorPosition, relativeErrorPosition) s' \<Rightarrow>
          Raised (PDFLexicalError msg errorPosition context relativeErrorPosition) s')"

definition advance :: "lexer \<Rightarrow> unit outcome" where
  "advance s =
     (if ended s then Raised StopIteration s
      else case Seekable_read 1 (source s) of
             (Inl e, sk) \<Rightarrow> Raised e (s\<lparr>source := sk\<rparr>)
           | (Inr v, sk) \<Rightarrow>
               (case v of
                  [] \<Rightarrow> Returned () (s\<lparr>source := sk, current := SPACE, ended := True\<rparr>)
                | b # _ \<Rightarrow> Returned () (s\<lparr>source := sk, current := b\<rparr>)))"

definition read_chunk :: "int \<Rightarrow> lexer \<Rightarrow> (byte list option) outcome" where
  "read_chunk sz s =
     (if ended s then Raised StopIteration s
      else let endPos = Seekable_tell (source s) + sz
           in if endPos \<le> lexer_length s then
                (case Seekable_read sz (source s) of
                   (Inl e, sk) \<Rightarrow> Raised e (s\<lparr>source := sk\<rparr>)
                 | (Inr data, sk) \<Rightarrow> Returned (Some data) (s\<lparr>source := sk\<rparr>))
              else Returned None s)"

definition peek :: "int \<Rightarrow> lexer \<Rightarrow> (byte option) outcome" where
  "peek k0 s =
     (let k = k0 - 1; currentPos = Seekable_tell (source s)
      in if currentPos + k \<ge> lexer_length s then Returned None s
         else (let sk1 = Seekable_seek k 1 (source s)
               in case Seekable_read 1 sk1 of
                    (Inl e, sk2) \<Rightarrow> Raised e (s\<lparr>source := sk2\<rparr>)
                  | (Inr v, sk2) \<Rightarrow>
                      (let sk3 = Seekable_seek currentPos 0 sk2
                       in case v of
                            [] \<Rightarrow> Raised IndexError (s\<lparr>source := sk3\<rparr>)
                          | b # _ \<Rightarrow> Returned (Some b) (s\<lparr>source := sk3\<rparr>))))"


text \<open>
  Every loop of the lexer goes through \<^verbatim>\<open>__advance\<close>, which either raises, or moves the
  cursor one byte, or sets \<^verbatim>\<open>ended\<close>: the quantity below decreases each time.
\<close>

definition remaining :: "lexer \<Rightarrow> nat" where
  "remaining s =
     nat (int (length (sk_source (source s))) - sk_pos (source s)) + (if ended s then 0 else 1)"

lemma Seekable_read_one:
  "Seekable_read 1 sk =
     (if sk_pos sk = sk_len sk then (Inr [], sk)
      else case py_getitem (sk_source sk) (sk_pos sk) of
             None \<Rightarrow> (Inl IndexError, sk)
           | Some b \<Rightarrow> (Inr [b], sk\<lparr>sk_pos := sk_pos sk + 1\<rparr>))"
  by (simp add: Seekable_read_def)

lemma py_getitem_Some_less:
  "py_getitem xs i = Some b \<Longrightarrow> i < int (length xs)"
  by (simp add: py_getitem_def Let_def split: if_splits)

lemma advance_cases:
  assumes "advance s = Returned x s'"
  shows "\<not> ended s \<and>
     ((sk_pos (source s) = sk_len (source s) \<and>
         s' = s\<lparr>source := source s, current := SPACE, ended := True\<rparr>)
    \<or> (sk_pos (source s) \<noteq> sk_len (source s) \<and>
         (\<exists>b. py_getitem (sk_source (source s)) (sk_pos (source s)) = Some b \<and>
              s' = s\<lparr>source := (source s)\<lparr>sk_pos := sk_pos (source s) + 1\<rparr>, current := b\<rparr>)))"
proof -
  from assms have ne: "\<not> ended s" by (simp add: advance_def split: if_splits)
  show ?thesis
  proof (cases "sk_pos (source s) = sk_len (source s)")
    case True
    with assms ne show ?thesis by (simp add: advance_def Seekable_read_one)
  next
    case False
    show ?thesis
    proof (cases "py_getitem (sk_source (source s)) (sk_pos (source s))")
      case None
      with assms ne False show ?thesis by (simp add: advance_def Seekable_read_one)
    next
      case (Some b)
      with assms ne False show ?thesis by (simp add: advance_def Seekable_read_one)
    qed
  qed
qed

lemma advance_remaining:
  assumes "advance s = Returned x s'"
  shows "remaining s' < remaining s"
proof -
  from advance_cases[OF assms] have ne: "\<not> ended s" and
    d: "(sk_pos (source s) = sk_len (source s) \<and>
         s' = s\<lparr>source := source s, current := SPACE, ended := True\<rparr>)
    \<or> (\<exists>b. py_getitem (sk_source (source s)) (sk_pos (source s)) = Some b \<and>
              s' = s\<lparr>source := (source s)\<lparr>sk_pos := sk_pos (source s) + 1\<rparr>, current := b\<rparr>)"
    by auto
  from d show ?thesis
  proof
    assume "sk_pos (source s) = sk_len (source s) \<and>
         s' = s\<lparr>source := source s, current := SPACE, ended := True\<rparr>"
    with ne show ?thesis by (simp add: remaining_def)
  next
    assume "\<exists>b. py_getitem (sk_source (source s)) (sk_pos (source s)) = Some b \<and>
              s' = s\<lparr>source := (source s)\<lparr>sk_pos := sk_pos (source s) + 1\<rparr>, current := b\<rparr>"
    then obtain b where g: "py_getitem (sk_source (source s)) (sk_pos (source s)) = Some b"
      and e: "s' = s\<lparr>source := (source s)\<lparr>sk_pos := sk_pos (source s) + 1\<rparr>, current := b\<rparr>"
      by blast
    from py_getitem_Some_less[OF g] e ne show ?thesis by (simp add: remaining_def)
  qed
qed

lemma advance_remaining_le:
  "advance s = Returned x s' \<Longrightarrow> remaining s' \<le> remaining s"
  using advance_remaining[of s x s'] by simp

function remove_blanks_comment :: "lexer \<Rightarrow> unit outcome" where
  "remove_blanks_comment s =
     (if current s \<noteq> LINE_FEED then
        (case advance s of
           Raised e s' \<Rightarrow> Raised e s'
         | Returned _ s' \<Rightarrow> remove_blanks_comment s')
      else Returned () s)"
  by pat_completeness auto
termination
  by (relation "measure remaining") (auto simp: advance_remaining)

declare remove_blanks_comment.simps [simp del]

lemma remove_blanks_comment_remaining:
  "remove_blanks_comment s = Returned x s' \<Longrightarrow> remaining s' \<le> remaining s"
proof (induction s rule: remove_blanks_comment.induct)
  case (1 s)
  show ?case
  proof (cases "current s \<noteq> LINE_FEED")
    case True
    then obtain u s1 where a: "advance s = Returned u s1" and r: "remove_blanks_comment s1 = Returned x s'"
      using "1.prems" by (auto simp: remove_blanks_comment.simps[of s] split: outcome.splits)
    from "1.IH"[OF True a r] advance_remaining[OF a] show ?thesis by simp
  next
    case False
    with "1.prems" show ?thesis by (simp add: remove_blanks_comment.simps[of s])
  qed
qed

function remove_blanks :: "lexer \<Rightarrow> unit outcome" where
  "remove_blanks s =
     (if current s \<in> BLANKS then
        (case advance s of
           Raised e s' \<Rightarrow> Raised e s'
         | Returned _ s' \<Rightarrow> remove_blanks s')
      else if current s = PERCENTAGE then
        (case remove_blanks_comment s of
           Raised e s' \<Rightarrow> Raised e s'
         | Returned _ s1 \<Rightarrow>
             (case advance s1 of
                Raised e s' \<Rightarrow> Raised e s'
              | Returned _ s2 \<Rightarrow> remove_blanks s2))
      else Returned () s)"
  by pat_completeness auto
termination
proof (relation "measure remaining")
  show "wf (measure remaining)" by simp
next
  fix s x s' assume "advance s = Returned x s'"
  then show "(s', s) \<in> measure remaining" by (simp add: advance_remaining)
next
  fix s x s1 y s2
  assume "remove_blanks_comment s = Returned x s1" "advance s1 = Returned y s2"
  then show "(s2, s) \<in> measure remaining"
    using remove_blanks_comment_remaining[of s x s1] advance_remaining[of s1 y s2] by simp
qed

declare remove_blanks.simps [simp del]

subsection \<open>Text conversions of the Python library\<close>

text \<open>
  \<^verbatim>\<open>int(text)\<close> and \<^verbatim>\<open>float(text)\<close> on a text made of an optional sign, digits and at most
  one point (all that \<^verbatim>\<open>__parse_number\<close> collects): both raise \<^verbatim>\<open>ValueError\<close> (\<open>None\<close>) when
  the text has no digit.
\<close>

definition digit_value :: "byte \<Rightarrow> nat" where
  "digit_value x = of_char x - 48"

definition unsigned_part :: "byte list \<Rightarrow> byte list" where
  "unsigned_part b =
     (case b of [] \<Rightarrow> [] | c # r \<Rightarrow> if c = PLUS \<or> c = MINUS then r else b)"

definition py_int :: "byte list \<Rightarrow> int option" where
  "py_int b =
     (let ds = unsigned_part b;
          v = int (foldl (\<lambda>a d. 10 * a + digit_value d) 0 ds)
      in if ds \<noteq> [] \<and> list_all is_digit ds
         then Some (if take 1 b = [MINUS] then - v else v)
         else None)"

definition py_float :: "byte list \<Rightarrow> byte list option" where
  "py_float b =
     (let ds = unsigned_part b
      in if list_all (\<lambda>c. is_digit c \<or> c = POINT) ds \<and> count_list ds POINT \<le> 1
            \<and> list_ex is_digit ds
         then Some b else None)"

text \<open>\<^verbatim>\<open>bytearray.decode('ascii')\<close>: a byte above 127 raises \<^verbatim>\<open>UnicodeDecodeError\<close>.\<close>

definition ascii_decode :: "byte list \<Rightarrow> pystr option" where
  "ascii_decode b =
     (if list_all (\<lambda>c. (of_char c :: nat) < 128) b then Some (map of_char b) else None)"

text \<open>
  \<^verbatim>\<open>bytearray.decode('utf-8')\<close>, strict: the well-formed byte sequences of the Unicode
  standard (no overlong form, no surrogate, nothing above U+10FFFF).
\<close>

definition continuation :: "byte \<Rightarrow> bool" where
  "continuation b = (128 \<le> (of_char b :: nat) \<and> (of_char b :: nat) \<le> 191)"

fun utf8_decode :: "byte list \<Rightarrow> pystr option" where
  "utf8_decode [] = Some []"
| "utf8_decode (b # bs) =
     (let c = (of_char b :: nat) in
      if c < 128 then map_option ((#) c) (utf8_decode bs)
      else if 194 \<le> c \<and> c \<le> 223 then
        (case bs of
           b1 # r \<Rightarrow>
             if continuation b1
             then map_option ((#) ((c - 192) * 64 + (of_char b1 - 128))) (utf8_decode r)
             else None
         | _ \<Rightarrow> None)
      else if 224 \<le> c \<and> c \<le> 239 then
        (case bs of
           b1 # b2 # r \<Rightarrow>
             if (if c = 224 then 160 else 128) \<le> (of_char b1 :: nat)
                \<and> (of_char b1 :: nat) \<le> (if c = 237 then 159 else 191)
                \<and> continuation b2
             then map_option
                    ((#) ((c - 224) * 4096 + (of_char b1 - 128) * 64 + (of_char b2 - 128)))
                    (utf8_decode r)
             else None
         | _ \<Rightarrow> None)
      else if 240 \<le> c \<and> c \<le> 244 then
        (case bs of
           b1 # b2 # b3 # r \<Rightarrow>
             if (if c = 240 then 144 else 128) \<le> (of_char b1 :: nat)
                \<and> (of_char b1 :: nat) \<le> (if c = 244 then 143 else 191)
                \<and> continuation b2 \<and> continuation b3
             then map_option
                    ((#) ((c - 240) * 262144 + (of_char b1 - 128) * 4096
                          + (of_char b2 - 128) * 64 + (of_char b3 - 128)))
                    (utf8_decode r)
             else None
         | _ \<Rightarrow> None)
      else None)"

text \<open>
  \<^verbatim>\<open>bytearray.decode('cp1252')\<close>: the decoding table of Python's \<^verbatim>\<open>encodings/cp1252.py\<close>.
  Five bytes are undefined there and raise \<^verbatim>\<open>UnicodeDecodeError\<close>.
\<close>

definition cp1252_table :: "nat list" where
  "cp1252_table =
     [0x20AC, 0, 0x201A, 0x0192, 0x201E, 0x2026, 0x2020, 0x2021,
      0x02C6, 0x2030, 0x0160, 0x2039, 0x0152, 0, 0x017D, 0,
      0, 0x2018, 0x2019, 0x201C, 0x201D, 0x2022, 0x2013, 0x2014,
      0x02DC, 0x2122, 0x0161, 0x203A, 0x0153, 0, 0x017E, 0x0178]"

definition cp1252_undefined :: "byte \<Rightarrow> bool" where
  "cp1252_undefined b = ((of_char b :: nat) \<in> {129, 141, 143, 144, 157})"

definition cp1252_char :: "byte \<Rightarrow> nat option" where
  "cp1252_char b =
     (let c = (of_char b :: nat) in
      if cp1252_undefined b then None
      else if 128 \<le> c \<and> c < 160 then Some (cp1252_table ! (c - 128))
      else Some c)"

fun cp1252_decode :: "byte list \<Rightarrow> pystr option" where
  "cp1252_decode [] = Some []"
| "cp1252_decode (b # bs) =
     (case cp1252_char b of
        None \<Rightarrow> None
      | Some c \<Rightarrow> map_option ((#) c) (cp1252_decode bs))"

text \<open>The \<^verbatim>\<open>try\<close>/\<^verbatim>\<open>except UnicodeDecodeError\<close> that ends \<^verbatim>\<open>__parse_string_literal\<close>.\<close>

definition decode_string_literal :: "byte list \<Rightarrow> pystr option" where
  "decode_string_literal buffer =
     (case utf8_decode buffer of
        Some t \<Rightarrow> Some t
      | None \<Rightarrow> cp1252_decode buffer)"

subsection \<open>The scanning loops of the lexer\<close>

text \<open>\<^verbatim>\<open>__parse_hexadecimal_string\<close>: its \<^verbatim>\<open>while True\<close> loop, then the method.\<close>

function parse_hexadecimal_string_loop :: "byte list \<Rightarrow> lexer \<Rightarrow> (byte list) outcome" where
  "parse_hexadecimal_string_loop buffer s =
     (if current s \<in> BLANKS then
        (case advance s of
           Raised e s' \<Rightarrow> Raised e s'
         | Returned _ s' \<Rightarrow> parse_hexadecimal_string_loop buffer s')
      else if \<not> is_hex_digit (current s) then Returned buffer s
      else
        (case advance s of
           Raised e s' \<Rightarrow> Raised e s'
         | Returned _ s' \<Rightarrow> parse_hexadecimal_string_loop (buffer @ [current s]) s'))"
  by pat_completeness auto
termination
  by (relation "measure (\<lambda>(buffer, s). remaining s)") (auto simp: advance_remaining)

declare parse_hexadecimal_string_loop.simps [simp del]

definition parse_hexadecimal_string :: "lexer \<Rightarrow> lexeme outcome" where
  "parse_hexadecimal_string s =
     (case advance s of
        Raised e s' \<Rightarrow> Raised e s'
      | Returned _ s1 \<Rightarrow>
          (case parse_hexadecimal_string_loop [] s1 of
             Raised e s' \<Rightarrow> Raised e s'
           | Returned buffer s2 \<Rightarrow>
               if current s2 \<noteq> CLOSE_ANGLE_BRACKET
               then raise_lexer_error ExpectedCloseAngle s2
               else (case advance s2 of
                       Raised e s' \<Rightarrow> Raised e s'
                     | Returned _ s3 \<Rightarrow> Returned (PDFHexString buffer) s3)))"

text \<open>
  \<^verbatim>\<open>__parse_string_literal\<close>: the loop that collects up to three digits after a backslash,
  the character code they make, the \<^verbatim>\<open>while openParentheses > 0\<close> loop, then the method.
  \<^verbatim>\<open>buffer.append(charCode)\<close> raises \<^verbatim>\<open>ValueError\<close> when the code is above 255.
\<close>

function octal_digits :: "byte list \<Rightarrow> lexer \<Rightarrow> (byte list) outcome" where
  "octal_digits digits s =
     (if is_digit (current s) \<and> length digits < 3 then
        (case advance s of
           Raised e s' \<Rightarrow> Raised e s'
         | Returned _ s' \<Rightarrow> octal_digits (digits @ [current s]) s')
      else Returned digits s)"
  by pat_completeness auto
termination
  by (relation "measure (\<lambda>(digits, s). remaining s)") (auto simp: advance_remaining)

declare octal_digits.simps [simp del]

lemma octal_digits_remaining:
  "octal_digits digits s = Returned x s' \<Longrightarrow> remaining s' \<le> remaining s"
proof (induction digits s rule: octal_digits.induct)
  case (1 digits s)
  show ?case
  proof (cases "is_digit (current s) \<and> length digits < 3")
    case True
    then obtain u s1 where a: "advance s = Returned u s1"
      and r: "octal_digits (digits @ [current s]) s1 = Returned x s'"
      using "1.prems" by (auto simp: octal_digits.simps[of digits s] split: outcome.splits)
    from "1.IH"[OF True a r] advance_remaining[OF a] show ?thesis by simp
  next
    case False
    with "1.prems" show ?thesis by (auto simp: octal_digits.simps[of digits s])
  qed
qed

definition charCode_of :: "byte list \<Rightarrow> nat" where
  "charCode_of digits =
     sum_list (map (\<lambda>(i, x). digit_value x * 2 ^ (3 * (length digits - i - 1)))
                   (enumerate 0 digits))"

function parse_string_literal_loop :: "int \<Rightarrow> byte list \<Rightarrow> lexer \<Rightarrow> (byte list) outcome" where
  "parse_string_literal_loop openParentheses buffer s =
     (if openParentheses > 0 then
        (if current s \<noteq> OPEN_PARENTHESIS \<and> current s \<noteq> CLOSE_PARENTHESIS
            \<and> current s = BACK_SLASH then
           (case advance s of
              Raised e s' \<Rightarrow> Raised e s'
            | Returned _ s1 \<Rightarrow>
                if \<not> is_digit (current s1) then
                  (case advance s1 of
                     Raised e s' \<Rightarrow> Raised e s'
                   | Returned _ s2 \<Rightarrow>
                       parse_string_literal_loop openParentheses
                         (buffer @ [STRING_ESCAPE_SEQUENCES_get (current s1)]) s2)
                else
                  (case octal_digits [] s1 of
                     Raised e s' \<Rightarrow> Raised e s'
                   | Returned digits s2 \<Rightarrow>
                       if charCode_of digits < 256
                       then parse_string_literal_loop openParentheses
                              (buffer @ [char_of (charCode_of digits)]) s2
                       else Raised ValueError s2))
         else
           (case advance s of
              Raised e s' \<Rightarrow> Raised e s'
            | Returned _ s1 \<Rightarrow>
                parse_string_literal_loop
                  (if current s = OPEN_PARENTHESIS then openParentheses + 1
                   else if current s = CLOSE_PARENTHESIS then openParentheses - 1
                   else openParentheses)
                  (buffer @ [current s]) s1))
      else Returned buffer s)"
  by pat_completeness auto
termination
proof (relation "measure (\<lambda>(openParentheses, buffer, s). remaining s)")
  show "wf (measure (\<lambda>(openParentheses, buffer, s). remaining s))" by simp
next
  fix openParentheses :: int and buffer :: "byte list" and s x s1 y s2
  assume "advance s = Returned x s1" "advance s1 = Returned y s2"
  then show "((openParentheses, buffer @ [STRING_ESCAPE_SEQUENCES_get (current s1)], s2),
              openParentheses, buffer, s) \<in> measure (\<lambda>(openParentheses, buffer, s). remaining s)"
    using advance_remaining[of s x s1] advance_remaining[of s1 y s2] by simp
next
  fix openParentheses :: int and buffer :: "byte list" and s x s1 digits s2
  assume "advance s = Returned x s1" "octal_digits [] s1 = Returned digits s2"
  then show "((openParentheses, buffer @ [char_of (charCode_of digits)], s2),
              openParentheses, buffer, s) \<in> measure (\<lambda>(openParentheses, buffer, s). remaining s)"
    using advance_remaining[of s x s1] octal_digits_remaining[of "[]" s1 digits s2] by simp
next
  fix openParentheses :: int and buffer :: "byte list" and s x s1
  assume "advance s = Returned x s1"
  then show "((if current s = OPEN_PARENTHESIS then openParentheses + 1
               else if current s = CLOSE_PARENTHESIS then openParentheses - 1
               else openParentheses, buffer @ [current s], s1),
              openParentheses, buffer, s) \<in> measure (\<lambda>(openParentheses, buffer, s). remaining s)"
    using advance_remaining[of s x s1] by simp
qed

declare parse_string_literal_loop.simps [simp del]

definition parse_string_literal :: "lexer \<Rightarrow> lexeme outcome" where
  "parse_string_literal s =
     (case advance s of
        Raised e s' \<Rightarrow> Raised e s'
      | Returned _ s1 \<Rightarrow>
          (case parse_string_literal_loop 1 [] s1 of
             Raised e s' \<Rightarrow> Raised e s'
           | Returned buffer s2 \<Rightarrow>
               if buffer = [] then Raised IndexError s2
               else (case decode_string_literal (butlast buffer) of
                       None \<Rightarrow> Raised UnicodeDecodeError s2
                     | Some t \<Rightarrow> Returned (LStr t) s2)))"

text \<open>
  \<^verbatim>\<open>__parse_name\<close>: the \<^verbatim>\<open>while\<close> loop, then the method. The \<^verbatim>\<open>except ValueError\<close> catches
  what \<^verbatim>\<open>hex_to_number\<close> raises; a \<^verbatim>\<open>StopIteration\<close> of \<^verbatim>\<open>__advance\<close> passes through.
\<close>

function parse_name_loop :: "byte list \<Rightarrow> lexer \<Rightarrow> (byte list) outcome" where
  "parse_name_loop buffer s =
     (if (33 :: nat) \<le> of_char (current s) \<and> (of_char (current s) :: nat) \<le> 126 then
        (if current s = NUMBER_SIGN then
           (case advance s of
              Raised e s' \<Rightarrow> Raised e s'
            | Returned _ s1 \<Rightarrow>
                (case hex_to_number (current s1) of
                   None \<Rightarrow> raise_lexer_error (NotHexadecimalDigit (current s1)) s1
                 | Some hexDigit1 \<Rightarrow>
                     (case advance s1 of
                        Raised e s' \<Rightarrow> Raised e s'
                      | Returned _ s2 \<Rightarrow>
                          (case hex_to_number (current s2) of
                             None \<Rightarrow> raise_lexer_error (NotHexadecimalDigit (current s2)) s2
                           | Some hexDigit2 \<Rightarrow>
                               (case advance s2 of
                                  Raised e s' \<Rightarrow> Raised e s'
                                | Returned _ s3 \<Rightarrow>
                                    parse_name_loop
                                      (buffer @ [char_of (hexDigit1 * 16 + hexDigit2)]) s3)))))
         else
           (case advance s of
              Raised e s' \<Rightarrow> Raised e s'
            | Returned _ s1 \<Rightarrow> parse_name_loop (buffer @ [current s]) s1))
      else Returned buffer s)"
  by pat_completeness auto
termination
proof (relation "measure (\<lambda>(buffer, s). remaining s)")
  show "wf (measure (\<lambda>(buffer, s). remaining s))" by simp
next
  fix buffer :: "byte list" and s x s1 hexDigit1 y s2 hexDigit2 z s3
  assume "advance s = Returned x s1" "advance s1 = Returned y s2" "advance s2 = Returned z s3"
  then show "((buffer @ [char_of (hexDigit1 * 16 + hexDigit2)], s3), buffer, s)
               \<in> measure (\<lambda>(buffer, s). remaining s)"
    using advance_remaining[of s x s1] advance_remaining[of s1 y s2]
      advance_remaining[of s2 z s3] by simp
next
  fix buffer :: "byte list" and s x s1
  assume "advance s = Returned x s1"
  then show "((buffer @ [current s], s1), buffer, s) \<in> measure (\<lambda>(buffer, s). remaining s)"
    using advance_remaining[of s x s1] by simp
qed

declare parse_name_loop.simps [simp del]

definition parse_name :: "lexer \<Rightarrow> lexeme outcome" where
  "parse_name s =
     (case advance s of
        Raised e s' \<Rightarrow> Raised e s'
      | Returned _ s1 \<Rightarrow>
          (case parse_name_loop [] s1 of
             Raised e s' \<Rightarrow> Raised e s'
           | Returned buffer s2 \<Rightarrow>
               (case ascii_decode buffer of
                  None \<Rightarrow> Raised UnicodeDecodeError s2
                | Some t \<Rightarrow> Returned (PDFName t) s2)))"

text \<open>\<^verbatim>\<open>__parse_number\<close>: the loop \<^verbatim>\<open>while is_digit(self.__current)\<close>, used twice.\<close>

function parse_number_digits :: "byte list \<Rightarrow> lexer \<Rightarrow> (byte list) outcome" where
  "parse_number_digits buff s =
     (if is_digit (current s) then
        (case advance s of
           Raised e s' \<Rightarrow> Raised e s'
         | Returned _ s' \<Rightarrow> parse_number_digits (buff @ [current s]) s')
      else Returned buff s)"
  by pat_completeness auto
termination
  by (relation "measure (\<lambda>(buff, s). remaining s)") (auto simp: advance_remaining)

declare parse_number_digits.simps [simp del]

definition parse_number :: "lexer \<Rightarrow> lexeme outcome" where
  "parse_number s =
     (case (if current s = PLUS \<or> current s = MINUS
            then (case advance s of
                    Raised e s' \<Rightarrow> Raised e s'
                  | Returned _ s' \<Rightarrow> Returned [current s] s')
            else Returned [] s) of
        Raised e s' \<Rightarrow> Raised e s'
      | Returned buff1 s1 \<Rightarrow>
          (case parse_number_digits buff1 s1 of
             Raised e s' \<Rightarrow> Raised e s'
           | Returned buff2 s2 \<Rightarrow>
               if current s2 = POINT then
                 (case advance s2 of
                    Raised e s' \<Rightarrow> Raised e s'
                  | Returned _ s3 \<Rightarrow>
                      (case parse_number_digits (buff2 @ [POINT]) s3 of
                         Raised e s' \<Rightarrow> Raised e s'
                       | Returned buff3 s4 \<Rightarrow>
                           (case py_float buff3 of
                              None \<Rightarrow> Raised ValueError s4
                            | Some t \<Rightarrow> Returned (LFloat t) s4)))
               else
                 (case py_int buff2 of
                    None \<Rightarrow> Raised ValueError s2
                  | Some n \<Rightarrow> Returned (LInt n) s2)))"

text \<open>
  \<^verbatim>\<open>__parse_literal\<close>: the comparing loop (it answers \<^verbatim>\<open>not diff\<close>), the advancing loop, then
  the method. \<^verbatim>\<open>__match_keyword\<close> answers the keyword it matched, which it has stored in
  \<^verbatim>\<open>__currentLexeme\<close>, or \<open>None\<close> for \<^verbatim>\<open>False\<close>.
\<close>

fun parse_literal_compare :: "int \<Rightarrow> byte list \<Rightarrow> lexer \<Rightarrow> bool outcome" where
  "parse_literal_compare i [] s = Returned True s"
| "parse_literal_compare i (l # lit) s =
     (case peek i s of
        Raised e s' \<Rightarrow> Raised e s'
      | Returned p s' \<Rightarrow>
          if p \<noteq> Some l then Returned False s' else parse_literal_compare (i + 1) lit s')"

fun advance_times :: "nat \<Rightarrow> lexer \<Rightarrow> unit outcome" where
  "advance_times 0 s = Returned () s"
| "advance_times (Suc n) s =
     (case advance s of
        Raised e s' \<Rightarrow> Raised e s'
      | Returned _ s' \<Rightarrow> advance_times n s')"

definition parse_literal :: "byte list \<Rightarrow> lexer \<Rightarrow> bool outcome" where
  "parse_literal lit s =
     (case parse_literal_compare 0 lit s of
        Raised e s' \<Rightarrow> Raised e s'
      | Returned matched s1 \<Rightarrow>
          if matched then
            (case advance_times (length lit) s1 of
               Raised e s' \<Rightarrow> Raised e s'
             | Returned _ s2 \<Rightarrow> Returned True s2)
          else Returned False s1)"

fun match_keyword_loop :: "byte list list \<Rightarrow> lexer \<Rightarrow> (byte list option) outcome" where
  "match_keyword_loop [] s = Returned None s"
| "match_keyword_loop (k # ks) s =
     (case parse_literal k s of
        Raised e s' \<Rightarrow> Raised e s'
      | Returned matched s' \<Rightarrow>
          if matched then Returned (Some k) (s'\<lparr>currentLexeme := Some (PDFKeyword k)\<rparr>)
          else match_keyword_loop ks s')"

definition match_keyword :: "lexer \<Rightarrow> (byte list option) outcome" where
  "match_keyword s = match_keyword_loop KEYWORDS s"

subsection \<open>\<^verbatim>\<open>__next__\<close>\<close>

text \<open>\<^verbatim>\<open>self.__currentLexeme = f()\<close> followed by \<^verbatim>\<open>return self.__currentLexeme\<close>.\<close>

definition assign_lexeme :: "lexeme outcome \<Rightarrow> lexeme outcome" where
  "assign_lexeme r =
     (case r of
        Raised e s \<Rightarrow> Raised e s
      | Returned l s \<Rightarrow> Returned l (s\<lparr>currentLexeme := Some l\<rparr>))"

text \<open>
  The branch taken once \<^verbatim>\<open>stream\<close> has matched. The closure \<^verbatim>\<open>read_stream\<close> it builds is the
  lexeme \<open>LStream streamPos\<close>; calling the closure is \<open>read_stream streamPos\<close> below.
\<close>

definition stream_branch :: "lexer \<Rightarrow> lexeme outcome" where
  "stream_branch s =
     (case (if current s = CARRIAGE_RETURN then
              (case advance s of
                 Raised e s' \<Rightarrow> Raised e s'
               | Returned _ s1 \<Rightarrow>
                   if current s1 \<noteq> LINE_FEED
                   then raise_lexer_error CarriageReturnWithoutLineFeed s1
                   else Returned () s1)
            else Returned () s) of
        Raised e s' \<Rightarrow> Raised e s'
      | Returned _ s2 \<Rightarrow>
          (let streamPos = Seekable_tell (source s2)
           in Returned (LStream streamPos) (s2\<lparr>currentLexeme := Some (LStream streamPos)\<rparr>)))"

definition read_stream :: "int \<Rightarrow> int \<Rightarrow> lexer \<Rightarrow> (byte list) outcome" where
  "read_stream streamPos len s =
     (let oldPos = Seekable_tell (source s);
          sk1 = Seekable_seek streamPos 0 (source s)
      in case Seekable_read len sk1 of
           (Inl e, sk2) \<Rightarrow> Raised e (s\<lparr>source := sk2\<rparr>)
         | (Inr data, sk2) \<Rightarrow>
             (case advance (s\<lparr>source := sk2\<rparr>) of
                Raised e s' \<Rightarrow> Raised e s'
              | Returned _ s1 \<Rightarrow>
                  (case (if current s1 = LINE_FEED then advance s1 else Returned () s1) of
                     Raised e s' \<Rightarrow> Raised e s'
                   | Returned _ s2 \<Rightarrow>
                       Returned data (s2\<lparr>source := Seekable_seek oldPos 0 (source s2)\<rparr>))))"

text \<open>The \<^verbatim>\<open>elif\<close> chain of \<^verbatim>\<open>__next__\<close> from the test for \<^verbatim>\<open>/\<close> on.\<close>

definition next_dispatch :: "lexer \<Rightarrow> lexeme outcome" where
  "next_dispatch s =
     (if current s = FORWARD_SLASH then assign_lexeme (parse_name s)
      else if is_digit (current s) \<or> current s \<in> {PLUS, MINUS, POINT}
      then assign_lexeme (parse_number s)
      else
        (case parse_literal ''true'' s of
           Raised e s' \<Rightarrow> Raised e s'
         | Returned m1 s1 \<Rightarrow>
             if m1 then Returned (LBool True) (s1\<lparr>currentLexeme := Some (LBool True)\<rparr>)
             else
               (case parse_literal ''false'' s1 of
                  Raised e s' \<Rightarrow> Raised e s'
                | Returned m2 s2 \<Rightarrow>
                    if m2 then Returned (LBool False) (s2\<lparr>currentLexeme := Some (LBool False)\<rparr>)
                    else
                      (case parse_literal ''stream'' s2 of
                         Raised e s' \<Rightarrow> Raised e s'
                       | Returned m3 s3 \<Rightarrow>
                           if m3 then stream_branch s3
                           else
                             (case match_keyword s3 of
                                Raised e s' \<Rightarrow> Raised e s'
                              | Returned (Some k) s4 \<Rightarrow> Returned (PDFKeyword k) s4
                              | Returned None s4 \<Rightarrow>
                                  if current s4 \<in> SINGLETONS then
                                    (case advance
                                            (s4\<lparr>currentLexeme :=
                                                  Some (PDFSingleton (current s4))\<rparr>) of
                                       Raised e s' \<Rightarrow> Raised e s'
                                     | Returned _ s5 \<Rightarrow>
                                         Returned (PDFSingleton (current s4)) s5)
                                  else raise_lexer_error InvalidCharactersSequence s4)))))"

definition Lexer_next :: "lexer \<Rightarrow> lexeme outcome" where
  "Lexer_next s =
     (if length (lexemesBuffer s) > 0 then
        Returned (last (lexemesBuffer s))
          (s\<lparr>lexemesBuffer := butlast (lexemesBuffer s),
              currentLexeme := Some (last (lexemesBuffer s))\<rparr>)
      else
        (case remove_blanks s of
           Raised e s' \<Rightarrow> Raised e s'
         | Returned _ s1 \<Rightarrow>
             if current s1 = OPEN_PARENTHESIS then assign_lexeme (parse_string_literal s1)
             else if current s1 = OPEN_ANGLE_BRACKET then
               (case peek 1 s1 of
                  Raised e s' \<Rightarrow> Raised e s'
                | Returned p s2 \<Rightarrow>
                    if p \<noteq> Some OPEN_ANGLE_BRACKET
                    then assign_lexeme (parse_hexadecimal_string s2)
                    else next_dispatch s2)
             else next_dispatch s1))"

subsection \<open>Moving\<close>



subsection \<open>\<^verbatim>\<open>seekable_rfind\<close>\<close>

text \<open>
  The inner loop \<^verbatim>\<open>while count <= self.__length\<close>. The variable \<^verbatim>\<open>c\<close> is unbound (\<open>None\<close>)
  until the loop body has run once.
\<close>

function seekable_rfind_inner ::
  "byte list \<Rightarrow> int \<Rightarrow> byte list option \<Rightarrow> lexer \<Rightarrow> (byte list \<times> int \<times> byte list option) outcome"
where
  "seekable_rfind_inner buff count c s =
     (if count \<le> lexer_length s then
        (case Seekable_read 1 (Seekable_seek (lexer_length s - count) 0 (source s)) of
           (Inl e, sk2) \<Rightarrow> Raised e (s\<lparr>source := sk2\<rparr>)
         | (Inr c', sk2) \<Rightarrow>
             (case c' of
                [] \<Rightarrow> Raised IndexError (s\<lparr>source := sk2\<rparr>)
              | b # _ \<Rightarrow>
                  if b \<notin> {CARRIAGE_RETURN, LINE_FEED}
                  then seekable_rfind_inner (buff @ c') (count + 1) (Some c') (s\<lparr>source := sk2\<rparr>)
                  else Returned (buff, count + 1, Some c') (s\<lparr>source := sk2\<rparr>)))
      else Returned (buff, count, c) s)"
  by pat_completeness auto
termination
  by (relation "measure (\<lambda>(buff, count, c, s). nat (lexer_length s + 1 - count))") auto

declare seekable_rfind_inner.simps [simp del]

text \<open>
  The outer loop \<^verbatim>\<open>while bytes(buff) != revKeyword\<close> has no bound of its own: it is a
  partial function, \<open>None\<close> when it runs forever. It answers \<open>False\<close> where the source
  executes \<^verbatim>\<open>return -1\<close> and \<open>True\<close> where the loop condition ends it.
\<close>

partial_function (option) seekable_rfind_outer ::
  "byte list \<Rightarrow> byte list \<Rightarrow> int \<Rightarrow> byte list option \<Rightarrow> lexer \<Rightarrow> (bool outcome) option"
where
  "seekable_rfind_outer revKeyword buff count c s =
     (if buff \<noteq> revKeyword then
        (case seekable_rfind_inner [] count c s of
           Raised e s' \<Rightarrow> Some (Raised e s')
         | Returned (buff', count', c') s' \<Rightarrow>
             if count' > lexer_length s' then
               (case c' of
                  None \<Rightarrow> Some (Raised UnboundLocalError s')
                | Some [] \<Rightarrow> Some (Raised IndexError s')
                | Some (b # _) \<Rightarrow>
                    if b \<notin> {CARRIAGE_RETURN, LINE_FEED} then Some (Returned False s')
                    else seekable_rfind_outer revKeyword buff' count' c' s')
             else seekable_rfind_outer revKeyword buff' count' c' s')
      else Some (Returned True s))"

declare seekable_rfind_outer.simps [code]

definition seekable_rfind :: "byte list \<Rightarrow> lexer \<Rightarrow> (int outcome) option" where
  "seekable_rfind keyword s =
     (case seekable_rfind_outer (rev keyword) [] 1 None s of
        None \<Rightarrow> None
      | Some (Raised e s') \<Rightarrow> Some (Raised e s')
      | Some (Returned found s1) \<Rightarrow>
          if \<not> found then Some (Returned (- 1) s1)
          else
            (let pos = Seekable_tell (source s1)
             in case advance s1 of
                  Raised e s' \<Rightarrow> Some (Raised e s')
                | Returned _ s2 \<Rightarrow>
                    (case Lexer_next s2 of
                       Raised e s' \<Rightarrow> Some (Raised e s')
                     | Returned _ s3 \<Rightarrow> Some (Returned pos s3))))"

definition lexer_inv :: "lexer \<Rightarrow> bool" where
  "lexer_inv s = (seekable_inv (source s) \<and> lexer_length s = sk_len (source s))"

definition lookahead_at :: "lexer \<Rightarrow> nat \<Rightarrow> lexer" where
  "lookahead_at s i =
     s\<lparr>source := (source s)\<lparr>sk_pos := int i + 1\<rparr>,
       current := sk_source (source s) ! i, ended := False\<rparr>"

definition at_end :: "lexer \<Rightarrow> lexer" where
  "at_end s =
     s\<lparr>source := (source s)\<lparr>sk_pos := sk_len (source s)\<rparr>, current := SPACE, ended := True\<rparr>"

abbreviation buffer_of :: "lexer \<Rightarrow> byte list" where
  "buffer_of s \<equiv> sk_source (source s)"

text \<open>The state in which byte \<open>i\<close> is the lookahead, or the end state when there is none.\<close>

definition position :: "lexer \<Rightarrow> nat \<Rightarrow> lexer" where
  "position s i = (if i < length (buffer_of s) then lookahead_at s i else at_end s)"

text \<open>
  The byte sequences made of blanks and \<^verbatim>\<open>%\<close>-comments only, as a two-state scan: the flag
  says whether the scan is inside a comment; a comment ends at a line feed or at the end of
  the sequence.
\<close>

fun blanks_comments_scan :: "bool \<Rightarrow> byte list \<Rightarrow> bool" where
  "blanks_comments_scan in_comment [] = True"
| "blanks_comments_scan False (c # cs) =
     (if c \<in> BLANKS then blanks_comments_scan False cs
      else if c = PERCENTAGE then blanks_comments_scan True cs
      else False)"
| "blanks_comments_scan True (c # cs) =
     (if c = LINE_FEED then blanks_comments_scan False cs else blanks_comments_scan True cs)"

definition only_blanks_and_comments :: "byte list \<Rightarrow> bool" where
  "only_blanks_and_comments bs = blanks_comments_scan False bs"

text \<open>The first pull on a fresh lexer over a buffer.\<close>

definition first_pull :: "byte list \<Rightarrow> int \<Rightarrow> error + lexeme outcome" where
  "first_pull obj cs =
     (case Lexer_init obj cs of Inl e \<Rightarrow> Inl e | Inr s \<Rightarrow> Inr (Lexer_next s))"

definition after_comment :: "lexer \<Rightarrow> unit outcome" where
  "after_comment s =
     (case remove_blanks_comment s of
        Raised e s' \<Rightarrow> Raised e s'
      | Returned _ s1 \<Rightarrow>
          (case advance s1 of
             Raised e s' \<Rightarrow> Raised e s'
           | Returned _ s2 \<Rightarrow> remove_blanks s2))"


definition state_of :: "'a outcome \<Rightarrow> lexer" where
  "state_of r = (case r of Raised e s \<Rightarrow> s | Returned x s \<Rightarrow> s)"

text \<open>
  The bytes a call \<^verbatim>\<open>read_stream(len)\<close> of the closure bound to \<open>streamPos\<close> reads, and the
  position its read reaches.
\<close>

definition stream_origin :: "lexer \<Rightarrow> int \<Rightarrow> nat" where
  "stream_origin s streamPos = nat (max 0 (min (sk_len (source s)) streamPos))"

definition stream_data :: "lexer \<Rightarrow> int \<Rightarrow> int \<Rightarrow> byte list" where
  "stream_data s streamPos len =
     take (nat (if len \<le> 0 then sk_len (source s) else len))
       (drop (stream_origin s streamPos) (buffer_of s))"

definition stream_end :: "lexer \<Rightarrow> int \<Rightarrow> int \<Rightarrow> nat" where
  "stream_end s streamPos len = stream_origin s streamPos + length (stream_data s streamPos len)"

definition stream_example :: lexer where
  "stream_example =
     \<lparr>source = \<lparr>sk_source = ''stream'' @ [LINE_FEED] @ ''ABCDE'' @ [LINE_FEED] @ ''endstream'',
                sk_pos = 7, sk_len = 22\<rparr>,
      lexer_length = 22, current = LINE_FEED, lexemesBuffer = [], movesHistory = [],
      contextSize = 200, ended = False, currentLexeme = Some (LStream 7)\<rparr>"

text \<open>The bytes of the buffer from index \<open>j\<close> on start with \<open>lit\<close>.\<close>

definition starts_with :: "byte list \<Rightarrow> nat \<Rightarrow> byte list \<Rightarrow> bool" where
  "starts_with buf j lit = (take (length lit) (drop j buf) = lit)"


text \<open>
  Inside a hexadecimal string: the first byte that is neither a blank nor a hexadecimal
  digit, the number of bytes before it, and the digits among them.
\<close>

definition hex_body_byte :: "byte \<Rightarrow> bool" where
  "hex_body_byte c = (c \<in> BLANKS \<or> is_hex_digit c)"

definition hex_stop :: "byte list \<Rightarrow> byte option" where
  "hex_stop bs = find (\<lambda>c. \<not> hex_body_byte c) bs"

definition hex_body_length :: "byte list \<Rightarrow> nat" where
  "hex_body_length bs = length (takeWhile hex_body_byte bs)"

definition hex_digits :: "byte list \<Rightarrow> byte list" where
  "hex_digits bs = filter is_hex_digit (takeWhile hex_body_byte bs)"

definition hex_example :: lexer where
  "hex_example =
     \<lparr>source = \<lparr>sk_source = ''<4E 6f>'', sk_pos = 1, sk_len = 7\<rparr>,
      lexer_length = 7, current = OPEN_ANGLE_BRACKET, lexemesBuffer = [], movesHistory = [],
      contextSize = 200, ended = False, currentLexeme = None\<rparr>"

text \<open>A byte that the string-literal scan copies as it is: no parenthesis, no backslash.\<close>

definition plain_byte :: "byte \<Rightarrow> bool" where
  "plain_byte c = (c \<noteq> OPEN_PARENTHESIS \<and> c \<noteq> CLOSE_PARENTHESIS \<and> c \<noteq> BACK_SLASH)"

definition string_example :: lexer where
  "string_example =
     \<lparr>source = \<lparr>sk_source = [OPEN_PARENTHESIS, CHR 0x80, CLOSE_PARENTHESIS], sk_pos = 1,
                sk_len = 3\<rparr>,
      lexer_length = 3, current = OPEN_PARENTHESIS, lexemesBuffer = [], movesHistory = [],
      contextSize = 200, ended = False, currentLexeme = None\<rparr>"

text \<open>
  The lookahead is in step with the cursor: unless the lexer has ended, \<^verbatim>\<open>current\<close> is the
  byte just before the cursor position.
\<close>

definition in_step :: "lexer \<Rightarrow> bool" where
  "in_step s =
     (ended s \<or> (1 \<le> sk_pos (source s)
                 \<and> current s = buffer_of s ! nat (sk_pos (source s) - 1)))"

text \<open>
  What every method of the lexer keeps: the buffer, the lengths, the history of moves and
  the context size are those of the state before; \<^verbatim>\<open>ended\<close> is never cleared; the cursor
  stays within the buffer; the lookahead stays in step with the cursor.
\<close>

definition keeps :: "lexer \<Rightarrow> lexer \<Rightarrow> bool" where
  "keeps s s' =
     (buffer_of s' = buffer_of s \<and> sk_len (source s') = sk_len (source s)
      \<and> lexer_length s' = lexer_length s \<and> movesHistory s' = movesHistory s
      \<and> contextSize s' = contextSize s \<and> (ended s \<longrightarrow> ended s')
      \<and> (lexer_inv s \<longrightarrow> lexer_inv s')
      \<and> (lexer_inv s \<and> in_step s \<longrightarrow> in_step s'))"

text \<open>A method behaves well when it keeps all that, and raises \<^verbatim>\<open>StopIteration\<close> only
  with \<^verbatim>\<open>ended\<close> set.\<close>

definition well_behaved :: "lexer \<Rightarrow> 'a outcome \<Rightarrow> bool" where
  "well_behaved s r =
     (keeps s (state_of r)
      \<and> (case r of Raised e s' \<Rightarrow> e = StopIteration \<longrightarrow> ended s' | Returned x s' \<Rightarrow> True))"

definition two_integers_end :: lexer where
  "two_integers_end =
     \<lparr>source = \<lparr>sk_source = ''1 2'', sk_pos = 3, sk_len = 3\<rparr>,
      lexer_length = 3, current = SPACE, lexemesBuffer = [], movesHistory = [],
      contextSize = 200, ended = True, currentLexeme = Some (LInt 2)\<rparr>"

definition move_example :: lexer where
  "move_example =
     \<lparr>source = \<lparr>sk_source = ''12 345 6'', sk_pos = 3, sk_len = 8\<rparr>,
      lexer_length = 8, current = SPACE, lexemesBuffer = [], movesHistory = [],
      contextSize = 200, ended = False, currentLexeme = Some (LInt 12)\<rparr>"

section \<open>Properties of the byte cursor\<close>

lemma py_slice_in_range:
  assumes "0 \<le> a" "a \<le> int (length xs)" "0 < k"
  shows "py_slice xs a (a + k) = take (nat k) (drop (nat a) xs)"
  using assms by (auto simp: py_slice_def py_bound_def Let_def min_def)

lemma py_getitem_in_range:
  "0 \<le> i \<Longrightarrow> i < int (length xs) \<Longrightarrow> py_getitem xs i = Some (xs ! nat i)"
  by (simp add: py_getitem_def Let_def)

lemma Seekable_seek_inv: "seekable_inv sk \<Longrightarrow> seekable_inv (Seekable_seek off whence sk)"
  by (auto simp: seekable_inv_def Seekable_seek_def Let_def)

lemma Seekable_seek_clamp:
  "seekable_inv sk \<Longrightarrow>
   sk_pos (Seekable_seek off whence sk) =
     max 0 (min (sk_len sk)
       (if whence = 0 then off else if whence = 1 then sk_pos sk + off else sk_len sk + off))"
  by (auto simp: seekable_inv_def Seekable_seek_def Let_def)

lemma Seekable_read_ok:
  assumes "seekable_inv sk"
  shows "Seekable_read n sk =
     (Inr (take (nat (if n \<le> 0 then sk_len sk else n)) (drop (nat (sk_pos sk)) (sk_source sk))),
      sk\<lparr>sk_pos := sk_pos sk + int (length
         (take (nat (if n \<le> 0 then sk_len sk else n)) (drop (nat (sk_pos sk)) (sk_source sk))))\<rparr>)"
proof (cases "sk_pos sk = sk_len sk")
  case True
  with assms show ?thesis by (simp add: Seekable_read_def seekable_inv_def)
next
  case False
  with assms have lt: "sk_pos sk < int (length (sk_source sk))" and ge: "0 \<le> sk_pos sk"
    and len: "sk_len sk = int (length (sk_source sk))"
    by (auto simp: seekable_inv_def)
  show ?thesis
  proof (cases "n = 1")
    case True
    have "take (Suc 0) (drop (nat (sk_pos sk)) (sk_source sk)) = [sk_source sk ! nat (sk_pos sk)]"
      using lt ge by (cases "drop (nat (sk_pos sk)) (sk_source sk)")
        (auto simp: take_Suc_conv_app_nth hd_drop_conv_nth dest: arg_cong[where f=hd])
    with True False lt ge show ?thesis
      by (simp add: Seekable_read_def py_getitem_in_range)
  next
    case n1: False
    show ?thesis
    proof (cases "n \<le> 0")
      case True
      have "0 < int (length (sk_source sk))" using lt ge by linarith
      with True \<open>sk_pos sk \<noteq> sk_len sk\<close> n1 lt ge len show ?thesis
        by (simp add: Seekable_read_def Let_def py_slice_in_range)
    next
      case False
      with \<open>sk_pos sk \<noteq> sk_len sk\<close> n1 lt ge len show ?thesis
        by (simp add: Seekable_read_def Let_def py_slice_in_range)
    qed
  qed
qed

lemma Seekable_read_inv:
  assumes "seekable_inv sk" shows "seekable_inv (snd (Seekable_read n sk))"
  using assms unfolding Seekable_read_ok[OF assms]
  by (auto simp: seekable_inv_def)

lemma cursor_step_inv:
  assumes "seekable_inv sk" shows "seekable_inv (snd (cursor_step x sk))"
proof (cases x)
  case (Read n)
  then show ?thesis
    using Seekable_read_inv[OF assms, of n] by (simp add: Seekable_read_ok[OF assms])
next
  case (Seek off whence)
  then show ?thesis using assms by (simp add: Seekable_seek_inv)
next
  case Tell
  then show ?thesis using assms by simp
qed

lemma cursor_step_len:
  "seekable_inv sk \<Longrightarrow> sk_len (snd (cursor_step x sk)) = sk_len sk"
  by (cases x) (auto simp: Seekable_read_ok Seekable_seek_def Let_def)

lemma cursor_step_ok:
  "seekable_inv sk \<Longrightarrow> result_ok sk (fst (cursor_step x sk))"
  by (cases x) (auto simp: Seekable_read_ok result_ok_def Seekable_tell_def seekable_inv_def)

lemma cursor_run_inv:
  "seekable_inv sk \<Longrightarrow>
   seekable_inv (snd (cursor_run xs sk)) \<and> sk_len (snd (cursor_run xs sk)) = sk_len sk \<and>
   list_all (result_ok sk) (fst (cursor_run xs sk))"
proof (induction xs arbitrary: sk)
  case Nil
  then show ?case by simp
next
  case (Cons x xs)
  obtain r sk' where s: "cursor_step x sk = (r, sk')" by (cases "cursor_step x sk")
  obtain rs sk'' where t: "cursor_run xs sk' = (rs, sk'')" by (cases "cursor_run xs sk'")
  from Cons.prems s have i: "seekable_inv sk'" and l: "sk_len sk' = sk_len sk" and o: "result_ok sk r"
    using cursor_step_inv[of sk x] cursor_step_len[of sk x] cursor_step_ok[of sk x] by auto
  from Cons.IH[OF i] t have "seekable_inv sk''" "sk_len sk'' = sk_len sk'" "list_all (result_ok sk') rs"
    by auto
  moreover have "result_ok sk' = result_ok sk" using l by (auto simp: result_ok_def fun_eq_iff split: cursor_result.splits)
  ultimately show ?case using s t l o by simp
qed

lemma Seekable_init_inv: "seekable_inv (Seekable_init obj)"
  by (simp add: seekable_inv_def Seekable_init_def)

lemma lexer_inv_len: "lexer_inv s \<Longrightarrow> sk_len (source s) = int (length (buffer_of s))"
  by (simp add: lexer_inv_def seekable_inv_def)

lemma lookahead_at_simps [simp]:
  "current (lookahead_at s i) = buffer_of s ! i"
  "ended (lookahead_at s i) = False"
  "buffer_of (lookahead_at s i) = buffer_of s"
  "sk_len (source (lookahead_at s i)) = sk_len (source s)"
  "sk_pos (source (lookahead_at s i)) = int i + 1"
  "lexer_length (lookahead_at s i) = lexer_length s"
  "lexemesBuffer (lookahead_at s i) = lexemesBuffer s"
  "movesHistory (lookahead_at s i) = movesHistory s"
  "contextSize (lookahead_at s i) = contextSize s"
  "currentLexeme (lookahead_at s i) = currentLexeme s"
  "lookahead_at (lookahead_at s i) j = lookahead_at s j"
  by (simp_all add: lookahead_at_def)

lemma at_end_simps [simp]:
  "current (at_end s) = SPACE"
  "ended (at_end s) = True"
  "buffer_of (at_end s) = buffer_of s"
  "sk_len (source (at_end s)) = sk_len (source s)"
  "sk_pos (source (at_end s)) = sk_len (source s)"
  "lexer_length (at_end s) = lexer_length s"
  "lexemesBuffer (at_end s) = lexemesBuffer s"
  "movesHistory (at_end s) = movesHistory s"
  "contextSize (at_end s) = contextSize s"
  "currentLexeme (at_end s) = currentLexeme s"
  "at_end (lookahead_at s i) = at_end s"
  "at_end (at_end s) = at_end s"
  by (simp_all add: at_end_def lookahead_at_def)

lemma advance_ended: "ended s \<Longrightarrow> advance s = Raised StopIteration s"
  by (simp add: advance_def)

lemma advance_at_end [simp]: "advance (at_end s) = Raised StopIteration (at_end s)"
  by (simp add: advance_ended)

lemma advance_lookahead:
  assumes "lexer_inv s" "Suc i < length (buffer_of s)"
  shows "advance (lookahead_at s i) = Returned () (lookahead_at s (Suc i))"
  using assms lexer_inv_len[OF assms(1)]
  by (simp add: advance_def Seekable_read_one py_getitem_in_range lookahead_at_def
      nat_add_distrib)

lemma advance_lookahead_last:
  assumes "lexer_inv s" "Suc i = length (buffer_of s)"
  shows "advance (lookahead_at s i) = Returned () (at_end s)"
  using assms lexer_inv_len[OF assms(1)]
  by (simp add: advance_def Seekable_read_one lookahead_at_def at_end_def)

lemma advance_position:
  assumes "lexer_inv s" "i < length (buffer_of s)"
  shows "advance (position s i) = Returned () (position s (Suc i))"
  using assms advance_lookahead[OF assms(1), of i] advance_lookahead_last[OF assms(1), of i]
  by (cases "Suc i < length (buffer_of s)") (auto simp: position_def)

lemma lookahead_at_self:
  assumes "\<not> ended s" "sk_pos (source s) = int i + 1" "current s = buffer_of s ! i"
  shows "lookahead_at s i = s"
  using assms by (simp add: lookahead_at_def)

lemma peek_lookahead:
  assumes "lexer_inv s" "i < length (buffer_of s)" "0 \<le> k"
  shows "peek k (lookahead_at s i) =
     Returned (if i + nat k < length (buffer_of s) then Some (buffer_of s ! (i + nat k)) else None)
       (lookahead_at s i)"
proof (cases "i + nat k < length (buffer_of s)")
  case True
  have len: "sk_len (source s) = int (length (buffer_of s))" and ll: "lexer_length s = int (length (buffer_of s))"
    using assms(1) by (simp_all add: lexer_inv_def seekable_inv_def)
  have sk: "Seekable_seek (k - 1) 1 (source (lookahead_at s i)) = (source s)\<lparr>sk_pos := int i + k\<rparr>"
    using True assms len by (simp add: Seekable_seek_def Let_def lookahead_at_def)
  have rd: "Seekable_read 1 ((source s)\<lparr>sk_pos := int i + k\<rparr>) =
      (Inr [buffer_of s ! (i + nat k)], (source s)\<lparr>sk_pos := int i + k + 1\<rparr>)"
    using True assms len by (simp add: Seekable_read_one py_getitem_in_range nat_add_distrib)
  have bk: "Seekable_seek (int i + 1) 0 ((source s)\<lparr>sk_pos := int i + k + 1\<rparr>) = (source s)\<lparr>sk_pos := int i + 1\<rparr>"
    using True assms len by (simp add: Seekable_seek_def Let_def)
  have "peek k (lookahead_at s i) = Returned (Some (buffer_of s ! (i + nat k)))
         ((lookahead_at s i)\<lparr>source := (source s)\<lparr>sk_pos := int i + 1\<rparr>\<rparr>)"
    unfolding peek_def Let_def sk
    using True assms len ll rd bk by (simp add: Seekable_tell_def)
  then show ?thesis using True by (simp add: lookahead_at_def)
next
  case False
  have ll: "lexer_length s = int (length (buffer_of s))"
    using assms(1) by (simp add: lexer_inv_def seekable_inv_def)
  have "int (length (buffer_of s)) \<le> int i + k" using False assms by linarith
  with ll show ?thesis
    by (simp add: peek_def Let_def Seekable_tell_def)
qed

lemma remove_blanks_at_end: "remove_blanks (at_end s) = Raised StopIteration (at_end s)"
  by (simp add: remove_blanks.simps[of "at_end s"] BLANKS_def)

lemma after_comment_at_end: "after_comment (at_end s) = Raised StopIteration (at_end s)"
  by (simp add: after_comment_def remove_blanks_comment.simps[of "at_end s"])

lemma drop_nth_Cons: "i < length xs \<Longrightarrow> drop i xs = xs ! i # drop (Suc i) xs"
  by (simp add: Cons_nth_drop_Suc)

lemma blanks_comments_stop:
  assumes inv: "lexer_inv s"
  shows "i \<le> length (buffer_of s) \<Longrightarrow> blanks_comments_scan b (drop i (buffer_of s)) \<Longrightarrow>
         (if b then after_comment (position s i) else remove_blanks (position s i))
           = Raised StopIteration (at_end s)"
proof (induction "length (buffer_of s) - i" arbitrary: i b)
  case 0
  then have "position s i = at_end s" by (simp add: position_def)
  then show ?case by (simp add: remove_blanks_at_end after_comment_at_end)
next
  case (Suc n)
  then have lt: "i < length (buffer_of s)" and n: "n = length (buffer_of s) - Suc i"
    and le: "Suc i \<le> length (buffer_of s)" by simp_all
  have p: "position s i = lookahead_at s i" using lt by (simp add: position_def)
  have adv: "advance (lookahead_at s i) = Returned () (position s (Suc i))"
    using advance_position[OF inv lt] p by simp
  have dr: "drop i (buffer_of s) = buffer_of s ! i # drop (Suc i) (buffer_of s)"
    using lt by (rule drop_nth_Cons)
  show ?case
  proof (cases b)
    case True
    with Suc.prems(2) dr have sc:
      "blanks_comments_scan (buffer_of s ! i \<noteq> LINE_FEED) (drop (Suc i) (buffer_of s))"
      by (auto split: if_splits)
    from Suc.hyps(1)[OF n le sc]
    have ih: "(if buffer_of s ! i \<noteq> LINE_FEED then after_comment (position s (Suc i))
               else remove_blanks (position s (Suc i))) = Raised StopIteration (at_end s)" .
    show ?thesis
    proof (cases "buffer_of s ! i = LINE_FEED")
      case lf: True
      with ih adv True p show ?thesis
        by (simp add: after_comment_def remove_blanks_comment.simps[of "lookahead_at s i"])
    next
      case nlf: False
      with ih adv True p show ?thesis
        by (simp add: after_comment_def remove_blanks_comment.simps[of "lookahead_at s i"])
    qed
  next
    case False
    with Suc.prems(2) dr have c: "buffer_of s ! i \<in> BLANKS \<or> buffer_of s ! i = PERCENTAGE"
      by (auto split: if_splits)
    show ?thesis
    proof (cases "buffer_of s ! i \<in> BLANKS")
      case bl: True
      with Suc.prems(2) dr False have "blanks_comments_scan False (drop (Suc i) (buffer_of s))"
        by auto
      from Suc.hyps(1)[OF n le this] have "remove_blanks (position s (Suc i)) = Raised StopIteration (at_end s)"
        by simp
      with bl adv False p show ?thesis
        by (simp add: remove_blanks.simps[of "lookahead_at s i"])
    next
      case nb: False
      with c have pc: "buffer_of s ! i = PERCENTAGE" by simp
      with Suc.prems(2) dr False nb have "blanks_comments_scan True (drop (Suc i) (buffer_of s))"
        by auto
      from Suc.hyps(1)[OF n le this] have "after_comment (position s (Suc i)) = Raised StopIteration (at_end s)"
        by simp
      with nb pc adv False p show ?thesis
        by (simp add: remove_blanks.simps[of "lookahead_at s i"] after_comment_def
            remove_blanks_comment.simps[of "lookahead_at s i"])
    qed
  qed
qed

lemma Lexer_init_Nil: "Lexer_init [] cs = Inl IndexError"
  by (simp add: Lexer_init_def Seekable_init_def Seekable_tell_def Seekable_seek_def
      Seekable_read_def Let_def)

lemma Lexer_init_Cons:
  "Lexer_init (b # bs) cs =
     Inr \<lparr>source = \<lparr>sk_source = b # bs, sk_pos = 1, sk_len = int (length (b # bs))\<rparr>,
          lexer_length = int (length (b # bs)), current = b, lexemesBuffer = [],
          movesHistory = [], contextSize = cs, ended = False, currentLexeme = None\<rparr>"
  by (simp add: Lexer_init_def Seekable_init_def Seekable_tell_def Seekable_seek_def
      Seekable_read_def py_getitem_def Let_def)

lemma Lexer_init_state:
  assumes "bs \<noteq> []"
  shows "\<exists>s. Lexer_init bs cs = Inr s \<and> lexer_inv s \<and> s = position s 0 \<and> buffer_of s = bs
           \<and> lexemesBuffer s = [] \<and> movesHistory s = [] \<and> currentLexeme s = None
           \<and> contextSize s = cs"
proof -
  from assms obtain b r where bs: "bs = b # r" by (cases bs) auto
  show ?thesis unfolding bs Lexer_init_Cons
    by (simp add: lexer_inv_def seekable_inv_def position_def lookahead_at_def)
qed

lemma Seekable_seek_abs:
  assumes "seekable_inv sk"
  shows "Seekable_seek p 0 sk = sk\<lparr>sk_pos := max 0 (min (sk_len sk) p)\<rparr>"
  using assms by (auto simp: Seekable_seek_def Let_def seekable_inv_def)




lemma read_stream_ended:
  assumes inv: "lexer_inv s" and e: "ended s"
  shows "read_stream streamPos len s =
     Raised StopIteration
       (s\<lparr>source := (source s)\<lparr>sk_pos :=
            int (nat (max 0 (min (sk_len (source s)) streamPos))
                 + length (take (nat (if len \<le> 0 then sk_len (source s) else len))
                      (drop (nat (max 0 (min (sk_len (source s)) streamPos))) (buffer_of s))))\<rparr>\<rparr>)"
proof -
  have si: "seekable_inv (source s)" and sl: "sk_len (source s) = int (length (buffer_of s))"
    using inv by (simp_all add: lexer_inv_def seekable_inv_def)
  define o' where "o' = nat (max 0 (min (sk_len (source s)) streamPos))"
  define sk1 where "sk1 = (source s)\<lparr>sk_pos := int o'\<rparr>"
  have o'le: "o' \<le> length (buffer_of s)" using sl by (simp add: o'_def)
  have s1: "Seekable_seek streamPos 0 (source s) = sk1"
    using Seekable_seek_abs[OF si, of streamPos] sl by (simp add: sk1_def o'_def)
  have i1: "seekable_inv sk1" using si o'le sl by (simp add: seekable_inv_def sk1_def)
  show ?thesis
    using Seekable_read_ok[OF i1, of len] e
    by (simp add: read_stream_def Let_def s1 Seekable_tell_def advance_ended sk1_def
        o'_def[symmetric])
qed


lemma read_stream_raises:
  assumes "lexer_inv s" "ended s"
  shows "read_stream streamPos len s =
     Raised StopIteration (s\<lparr>source := (source s)\<lparr>sk_pos := int (stream_end s streamPos len)\<rparr>\<rparr>)"
  using read_stream_ended[OF assms, of streamPos len]
  by (simp add: stream_data_def stream_end_def stream_origin_def)




lemma starts_with_Nil [simp]: "starts_with buf j []"
  by (simp add: starts_with_def)

lemma starts_with_Cons:
  "starts_with buf j (l # lit) = (j < length buf \<and> buf ! j = l \<and> starts_with buf (Suc j) lit)"
proof (cases "j < length buf")
  case True
  then have "drop j buf = buf ! j # drop (Suc j) buf" by (simp add: Cons_nth_drop_Suc)
  then show ?thesis using True by (simp add: starts_with_def)
next
  case False
  then show ?thesis by (simp add: starts_with_def)
qed

lemma starts_with_length:
  assumes "starts_with buf j lit" "j \<le> length buf"
  shows "j + length lit \<le> length buf"
proof -
  from assms(1) have "length (take (length lit) (drop j buf)) = length lit"
    by (simp add: starts_with_def)
  then have "length lit \<le> length buf - j" by simp
  with assms(2) show ?thesis by simp
qed

lemma parse_literal_compare_lookahead:
  assumes inv: "lexer_inv s" and j: "j < length (buffer_of s)"
  shows "parse_literal_compare (int i) lit (lookahead_at s j) =
           Returned (starts_with (buffer_of s) (j + i) lit) (lookahead_at s j)"
proof (induction lit arbitrary: i)
  case Nil
  then show ?case by simp
next
  case (Cons l lit)
  have p: "peek (int i) (lookahead_at s j) =
     Returned (if j + i < length (buffer_of s) then Some (buffer_of s ! (j + i)) else None)
       (lookahead_at s j)"
    using peek_lookahead[OF inv j, of "int i"] by simp
  have n: "int i + 1 = int (Suc i)" by simp
  show ?case
    unfolding parse_literal_compare.simps p n
    using Cons.IH[of "Suc i"] by (simp add: starts_with_Cons)
qed

lemma advance_times_position:
  assumes inv: "lexer_inv s"
  shows "j + n \<le> length (buffer_of s) \<Longrightarrow>
         advance_times n (position s j) = Returned () (position s (j + n))"
proof (induction n arbitrary: j)
  case 0
  then show ?case by simp
next
  case (Suc n)
  then have lt: "j < length (buffer_of s)" by simp
  from Suc.IH[of "Suc j"] Suc.prems advance_position[OF inv lt]
  show ?case by simp
qed

lemma position_lookahead: "j < length (buffer_of s) \<Longrightarrow> position s j = lookahead_at s j"
  by (simp add: position_def)

lemma parse_literal_lookahead:
  assumes inv: "lexer_inv s" and j: "j < length (buffer_of s)"
  shows "parse_literal lit (lookahead_at s j) =
     (if starts_with (buffer_of s) j lit then Returned True (position s (j + length lit))
      else Returned False (lookahead_at s j))"
proof (cases "starts_with (buffer_of s) j lit")
  case True
  from starts_with_length[OF True] j have le: "j + length lit \<le> length (buffer_of s)" by simp
  have "advance_times (length lit) (lookahead_at s j) = Returned () (position s (j + length lit))"
    using advance_times_position[OF inv le] position_lookahead[OF j] by simp
  with True show ?thesis
    using parse_literal_compare_lookahead[OF inv j, of 0 lit]
    by (simp add: parse_literal_def)
next
  case False
  then show ?thesis
    using parse_literal_compare_lookahead[OF inv j, of 0 lit]
    by (simp add: parse_literal_def)
qed

lemma match_keyword_loop_lookahead:
  assumes inv: "lexer_inv s" and j: "j < length (buffer_of s)"
  shows "match_keyword_loop ks (lookahead_at s j) =
     (case find (starts_with (buffer_of s) j) ks of
        None \<Rightarrow> Returned None (lookahead_at s j)
      | Some k \<Rightarrow>
          Returned (Some k) ((position s (j + length k))\<lparr>currentLexeme := Some (PDFKeyword k)\<rparr>))"
  by (induction ks) (simp_all add: parse_literal_lookahead[OF inv j])

lemma remove_blanks_token:
  assumes "current s \<notin> BLANKS" "current s \<noteq> PERCENTAGE"
  shows "remove_blanks s = Returned () s"
  using assms by (simp add: remove_blanks.simps[of s])

lemma lexer_inv_currentLexeme [simp]: "lexer_inv (s\<lparr>currentLexeme := l\<rparr>) = lexer_inv s"
  by (simp add: lexer_inv_def)


lemma read_stream_zero_length:
  "read_stream 7 0 stream_example =
     Returned (''ABCDE'' @ [LINE_FEED] @ ''endstream'')
       (stream_example\<lparr>current := SPACE, ended := True\<rparr>)"
  by code_simp


lemma blank_not_hex: "c \<in> BLANKS \<Longrightarrow> \<not> is_hex_digit c"
  by (auto simp: BLANKS_def is_hex_digit_def)

lemma hex_stop_Cons: "hex_stop (c # cs) = (if hex_body_byte c then hex_stop cs else Some c)"
  by (simp add: hex_stop_def)

lemma hex_digits_Cons:
  "hex_digits (c # cs) =
     (if hex_body_byte c then (if is_hex_digit c then c # hex_digits cs else hex_digits cs)
      else [])"
  by (simp add: hex_digits_def)

lemma hex_body_length_Cons:
  "hex_body_length (c # cs) = (if hex_body_byte c then Suc (hex_body_length cs) else 0)"
  by (simp add: hex_body_length_def)

lemma hex_loop_at_end:
  "parse_hexadecimal_string_loop acc (at_end s) = Raised StopIteration (at_end s)"
  by (simp add: parse_hexadecimal_string_loop.simps[of acc "at_end s"] BLANKS_def)

lemma hex_loop_position:
  assumes inv: "lexer_inv s"
  shows "i \<le> length (buffer_of s) \<Longrightarrow>
     parse_hexadecimal_string_loop acc (position s i) =
       (case hex_stop (drop i (buffer_of s)) of
          None \<Rightarrow> Raised StopIteration (at_end s)
        | Some c \<Rightarrow>
            Returned (acc @ hex_digits (drop i (buffer_of s)))
              (lookahead_at s (i + hex_body_length (drop i (buffer_of s)))))"
proof (induction "length (buffer_of s) - i" arbitrary: i acc)
  case 0
  then have "position s i = at_end s" "drop i (buffer_of s) = []"
    by (simp_all add: position_def)
  then show ?case by (simp add: hex_loop_at_end hex_stop_def)
next
  case (Suc n)
  then have lt: "i < length (buffer_of s)" and n: "n = length (buffer_of s) - Suc i"
    and le: "Suc i \<le> length (buffer_of s)" by simp_all
  define c where "c = buffer_of s ! i"
  have p: "position s i = lookahead_at s i" using lt by (simp add: position_def)
  have cur: "current (lookahead_at s i) = c" by (simp add: c_def)
  have adv: "advance (lookahead_at s i) = Returned () (position s (Suc i))"
    using advance_position[OF inv lt] p by simp
  have dr: "drop i (buffer_of s) = c # drop (Suc i) (buffer_of s)"
    using lt by (simp add: Cons_nth_drop_Suc c_def)
  note ih = Suc.hyps(1)[OF n le]
  show ?case
  proof (cases "c \<in> BLANKS")
    case True
    then have hb: "hex_body_byte c" and nh: "\<not> is_hex_digit c"
      by (simp_all add: hex_body_byte_def blank_not_hex)
    have "parse_hexadecimal_string_loop acc (lookahead_at s i)
          = parse_hexadecimal_string_loop acc (position s (Suc i))"
      using True cur adv by (simp add: parse_hexadecimal_string_loop.simps[of acc "lookahead_at s i"])
    then show ?thesis
      unfolding p ih[of acc] dr using hb nh
      by (simp add: hex_stop_Cons hex_digits_Cons hex_body_length_Cons split: option.split)
  next
    case nb: False
    show ?thesis
    proof (cases "is_hex_digit c")
      case True
      then have hb: "hex_body_byte c" by (simp add: hex_body_byte_def)
      have "parse_hexadecimal_string_loop acc (lookahead_at s i)
            = parse_hexadecimal_string_loop (acc @ [c]) (position s (Suc i))"
        using True nb cur adv
        by (simp add: parse_hexadecimal_string_loop.simps[of acc "lookahead_at s i"])
      then show ?thesis
        unfolding p ih[of "acc @ [c]"] dr using hb True
        by (simp add: hex_stop_Cons hex_digits_Cons hex_body_length_Cons split: option.split)
    next
      case False
      with nb have hb: "\<not> hex_body_byte c" by (simp add: hex_body_byte_def)
      have "parse_hexadecimal_string_loop acc (lookahead_at s i) = Returned acc (lookahead_at s i)"
        using False nb cur
        by (simp add: parse_hexadecimal_string_loop.simps[of acc "lookahead_at s i"])
      then show ?thesis
        unfolding p dr using hb
        by (simp add: hex_stop_Cons hex_digits_Cons hex_body_length_Cons split: option.split)
    qed
  qed
qed

lemma get_context_state:
  assumes "lexer_inv s"
  shows "\<exists>context rel. get_context s = Returned (context, sk_pos (source s), rel) s"
proof -
  have si: "seekable_inv (source s)" using assms by (simp add: lexer_inv_def)
  then have p: "0 \<le> sk_pos (source s)" "sk_pos (source s) \<le> sk_len (source s)"
    by (simp_all add: seekable_inv_def)
  define start where "start = (if sk_pos (source s) - contextSize s div 2 < 0 then 0
                               else sk_pos (source s) - contextSize s div 2)"
  define sk1 where "sk1 = Seekable_seek start 0 (source s)"
  have i1: "seekable_inv sk1" unfolding sk1_def using si by (rule Seekable_seek_inv)
  have l1: "sk_len sk1 = sk_len (source s)" "sk_source sk1 = buffer_of s"
    by (simp_all add: sk1_def Seekable_seek_def Let_def)
  obtain v where rd: "Seekable_read (contextSize s) sk1 = (Inr v, sk1\<lparr>sk_pos := sk_pos sk1 + int (length v)\<rparr>)"
    using Seekable_read_ok[OF i1, of "contextSize s"] by blast
  have i2: "seekable_inv (sk1\<lparr>sk_pos := sk_pos sk1 + int (length v)\<rparr>)"
    using Seekable_read_inv[OF i1, of "contextSize s"] rd by simp
  have bk: "Seekable_seek (sk_pos (source s)) 0 (sk1\<lparr>sk_pos := sk_pos sk1 + int (length v)\<rparr>) = source s"
    using p l1 by (simp add: Seekable_seek_def Let_def sk1_def)
  show ?thesis
    unfolding get_context_def Let_def Seekable_tell_def start_def[symmetric] sk1_def[symmetric] rd
    by (simp add: bk)
qed

lemma raise_lexer_error_state:
  assumes "lexer_inv s"
  shows "\<exists>context rel.
     (raise_lexer_error msg s :: 'a outcome)
       = Raised (PDFLexicalError msg (sk_pos (source s)) context rel) s"
proof -
  from get_context_state[OF assms] obtain ctx rel
    where "get_context s = Returned (ctx, sk_pos (source s), rel) s" by blast
  then show ?thesis by (simp add: raise_lexer_error_def)
qed

lemma lexer_inv_lookahead_at:
  assumes "lexer_inv s" "i < length (buffer_of s)"
  shows "lexer_inv (lookahead_at s i)"
  using assms by (simp add: lexer_inv_def seekable_inv_def lookahead_at_def)

lemma hex_stop_Some:
  "hex_stop bs = Some c \<Longrightarrow>
     hex_body_length bs < length bs \<and> bs ! hex_body_length bs = c \<and> \<not> hex_body_byte c"
  by (induction bs) (auto simp: hex_stop_Cons hex_body_length_Cons hex_stop_def split: if_splits)

lemma hex_stop_None: "hex_stop bs = None \<longleftrightarrow> list_all hex_body_byte bs"
  by (induction bs) (auto simp: hex_stop_Cons hex_stop_def)

lemma parse_hexadecimal_string_lookahead:
  assumes inv: "lexer_inv s" and i: "i < length (buffer_of s)"
  shows "parse_hexadecimal_string (lookahead_at s i) =
     (case hex_stop (drop (Suc i) (buffer_of s)) of
        None \<Rightarrow> Raised StopIteration (at_end s)
      | Some c \<Rightarrow>
          if c \<noteq> CLOSE_ANGLE_BRACKET
          then raise_lexer_error ExpectedCloseAngle
                 (lookahead_at s (Suc i + hex_body_length (drop (Suc i) (buffer_of s))))
          else Returned (PDFHexString (hex_digits (drop (Suc i) (buffer_of s))))
                 (position s (Suc (Suc i + hex_body_length (drop (Suc i) (buffer_of s))))))"
proof -
  define rest where "rest = drop (Suc i) (buffer_of s)"
  define k where "k = Suc i + hex_body_length rest"
  have adv: "advance (lookahead_at s i) = Returned () (position s (Suc i))"
    using advance_position[OF inv i] i by (simp add: position_def)
  have le: "Suc i \<le> length (buffer_of s)" using i by simp
  have loop: "parse_hexadecimal_string_loop [] (position s (Suc i)) =
       (case hex_stop rest of
          None \<Rightarrow> Raised StopIteration (at_end s)
        | Some c \<Rightarrow> Returned (hex_digits rest) (lookahead_at s k))"
    using hex_loop_position[OF inv le, of "[]"]
    by (simp add: rest_def k_def split: option.split)
  show ?thesis
  proof (cases "hex_stop rest")
    case None
    with adv loop show ?thesis
      by (simp add: parse_hexadecimal_string_def rest_def)
  next
    case (Some c)
    from hex_stop_Some[OF Some] have kl: "hex_body_length rest < length rest"
      and kc: "rest ! hex_body_length rest = c" by simp_all
    have klt: "k < length (buffer_of s)" using kl by (simp add: k_def rest_def)
    have "buffer_of s ! k = c" using kc kl le by (simp add: k_def rest_def)
    then have cur: "current (lookahead_at s k) = c" by simp
    have a2: "advance (lookahead_at s k) = Returned () (position s (Suc k))"
      using advance_position[OF inv klt] klt by (simp add: position_def)
    have k': "Suc (i + hex_body_length rest) = k" by (simp add: k_def)
    from adv loop Some cur a2 show ?thesis
      by (simp add: parse_hexadecimal_string_def rest_def[symmetric] k')
  qed
qed

lemma Lexer_next_hexadecimal:
  assumes inv: "lexer_inv s" and i: "i < length (buffer_of s)"
    and c: "buffer_of s ! i = OPEN_ANGLE_BRACKET"
    and n: "Suc i < length (buffer_of s) \<longrightarrow> buffer_of s ! Suc i \<noteq> OPEN_ANGLE_BRACKET"
    and lb: "lexemesBuffer s = []"
  shows "Lexer_next (lookahead_at s i) = assign_lexeme (parse_hexadecimal_string (lookahead_at s i))"
proof -
  have rb: "remove_blanks (lookahead_at s i) = Returned () (lookahead_at s i)"
    using c by (intro remove_blanks_token) (simp_all add: BLANKS_def)
  have pk: "peek 1 (lookahead_at s i) =
     Returned (if Suc i < length (buffer_of s) then Some (buffer_of s ! Suc i) else None)
       (lookahead_at s i)"
    using peek_lookahead[OF inv i, of 1] by simp
  show ?thesis
    using c n lb by (simp add: Lexer_next_def rb pk)
qed

lemma hex_example_init: "Lexer_init ''<4E 6f>'' 200 = Inr hex_example"
  by (simp add: Lexer_init_Cons hex_example_def)

lemma string_loop_done:
  "\<not> 0 < openParentheses \<Longrightarrow>
     parse_string_literal_loop openParentheses buffer s = Returned buffer s"
  by (simp add: parse_string_literal_loop.simps[of openParentheses buffer s])

lemma string_loop_closes:
  "parse_string_literal_loop openParentheses buffer s = Returned r s' \<Longrightarrow>
     0 < openParentheses \<Longrightarrow> r \<noteq> [] \<and> last r = CLOSE_PARENTHESIS"
proof (induction openParentheses buffer s rule: parse_string_literal_loop.induct)
  case (1 openParentheses buffer s)
  note eq = "1.prems"(1)[unfolded parse_string_literal_loop.simps[of openParentheses buffer s]]
  have pos: "0 < openParentheses" by fact
  show ?case
  proof (cases "current s = BACK_SLASH")
    case True
    then have bs: "current s \<noteq> OPEN_PARENTHESIS \<and> current s \<noteq> CLOSE_PARENTHESIS
            \<and> current s = BACK_SLASH" by simp
    from eq pos bs obtain u s1 where a1: "advance s = Returned u s1"
      by (auto split: outcome.splits)
    show ?thesis
    proof (cases "is_digit (current s1)")
      case False
      with eq pos bs a1 obtain v s2 where a2: "advance s1 = Returned v s2"
        and r: "parse_string_literal_loop openParentheses
                  (buffer @ [STRING_ESCAPE_SEQUENCES_get (current s1)]) s2 = Returned r s'"
        by (auto split: outcome.splits)
      from "1.IH"(1)[OF pos bs a1 False a2 r pos] show ?thesis .
    next
      case True
      with eq pos bs a1 obtain digits s2 where o: "octal_digits [] s1 = Returned digits s2"
        and c: "charCode_of digits < 256"
        and r: "parse_string_literal_loop openParentheses
                  (buffer @ [char_of (charCode_of digits)]) s2 = Returned r s'"
        by (auto split: outcome.splits if_splits)
      have nd: "\<not> \<not> is_digit (current s1)" using True by simp
      from "1.IH"(2)[OF pos bs a1 nd o c r pos] show ?thesis .
    qed
  next
    case False
    then have nbs: "\<not> (current s \<noteq> OPEN_PARENTHESIS \<and> current s \<noteq> CLOSE_PARENTHESIS
            \<and> current s = BACK_SLASH)" by simp
    define o' where "o' = (if current s = OPEN_PARENTHESIS then openParentheses + 1
                   else if current s = CLOSE_PARENTHESIS then openParentheses - 1
                   else openParentheses)"
    from eq pos nbs obtain u s1 where a1: "advance s = Returned u s1"
      and r: "parse_string_literal_loop o' (buffer @ [current s]) s1 = Returned r s'"
      by (auto simp: o'_def split: outcome.splits)
    show ?thesis
    proof (cases "0 < o'")
      case True
      from "1.IH"(3)[OF pos nbs a1 r[unfolded o'_def] True[unfolded o'_def]] show ?thesis .
    next
      case False
      with pos have c: "current s = CLOSE_PARENTHESIS"
        by (auto simp: o'_def split: if_splits)
      from r string_loop_done[OF False] have "r = buffer @ [current s]" by simp
      with c show ?thesis by simp
    qed
  qed
qed

lemma cp1252_decode_None: "cp1252_decode bs = None \<longleftrightarrow> list_ex cp1252_undefined bs"
  by (induction bs) (auto simp: cp1252_char_def Let_def split: option.splits)

lemma decode_string_literal_None:
  "decode_string_literal bs = None \<longleftrightarrow> utf8_decode bs = None \<and> list_ex cp1252_undefined bs"
  by (simp add: decode_string_literal_def cp1252_decode_None split: option.split)

lemma string_loop_step:
  assumes inv: "lexer_inv s" and i: "i < length (buffer_of s)"
    and c: "buffer_of s ! i \<noteq> BACK_SLASH"
  shows "parse_string_literal_loop 1 acc (position s i) =
     parse_string_literal_loop
       (if buffer_of s ! i = OPEN_PARENTHESIS then 2
        else if buffer_of s ! i = CLOSE_PARENTHESIS then 0 else 1)
       (acc @ [buffer_of s ! i]) (position s (Suc i))"
proof -
  have p: "position s i = lookahead_at s i" using i by (simp add: position_def)
  have adv: "advance (lookahead_at s i) = Returned () (position s (Suc i))"
    using advance_position[OF inv i] p by simp
  show ?thesis
    unfolding p using c adv
    by (simp add: parse_string_literal_loop.simps[of 1 acc "lookahead_at s i"])
qed

lemma string_loop_plain:
  assumes inv: "lexer_inv s"
  shows "buffer_of s = pre @ body @ CLOSE_PARENTHESIS # post \<Longrightarrow> list_all plain_byte body \<Longrightarrow>
     parse_string_literal_loop 1 acc (position s (length pre)) =
       Returned (acc @ body @ [CLOSE_PARENTHESIS]) (position s (length pre + length body + 1))"
proof (induction body arbitrary: pre acc)
  case Nil
  then have i: "length pre < length (buffer_of s)"
    and c: "buffer_of s ! length pre = CLOSE_PARENTHESIS" by simp_all
  from string_loop_step[OF inv i, of acc] c show ?case
    by (simp add: string_loop_done)
next
  case (Cons c body)
  then have i: "length pre < length (buffer_of s)"
    and b: "buffer_of s ! length pre = c" and pl: "plain_byte c" by simp_all
  from Cons.prems have b': "buffer_of s = (pre @ [c]) @ body @ CLOSE_PARENTHESIS # post"
    and pb: "list_all plain_byte body" by simp_all
  from Cons.IH[OF b' pb, of "acc @ [c]"]
  have ih: "parse_string_literal_loop 1 (acc @ [c]) (position s (Suc (length pre))) =
       Returned (acc @ c # body @ [CLOSE_PARENTHESIS]) (position s (length pre + length body + 2))"
    by simp
  from string_loop_step[OF inv i, of acc] b pl ih show ?case
    by (simp add: plain_byte_def)
qed

lemma Lexer_next_plain_string:
  assumes inv: "lexer_inv s"
    and buf: "buffer_of s = pre @ OPEN_PARENTHESIS # body @ CLOSE_PARENTHESIS # post"
    and pl: "list_all plain_byte body"
    and lb: "lexemesBuffer s = []"
  shows "Lexer_next (lookahead_at s (length pre)) =
     (case decode_string_literal body of
        None \<Rightarrow> Raised UnicodeDecodeError (position s (length pre + length body + 2))
      | Some t \<Rightarrow>
          Returned (LStr t)
            ((position s (length pre + length body + 2))\<lparr>currentLexeme := Some (LStr t)\<rparr>))"
proof -
  define i where "i = length pre"
  have il: "i < length (buffer_of s)" and c: "buffer_of s ! i = OPEN_PARENTHESIS"
    by (simp_all add: buf i_def)
  have rb: "remove_blanks (lookahead_at s i) = Returned () (lookahead_at s i)"
    using c by (intro remove_blanks_token) (simp_all add: BLANKS_def)
  have adv: "advance (lookahead_at s i) = Returned () (position s (Suc i))"
    using advance_position[OF inv il] il by (simp add: position_def)
  have b': "buffer_of s = (pre @ [OPEN_PARENTHESIS]) @ body @ CLOSE_PARENTHESIS # post"
    by (simp add: buf)
  have loop: "parse_string_literal_loop 1 [] (position s (Suc i)) =
       Returned (body @ [CLOSE_PARENTHESIS]) (position s (i + length body + 2))"
    using string_loop_plain[OF inv b' pl, of "[]"] by (simp add: i_def)
  have "parse_string_literal (lookahead_at s i) =
     (case decode_string_literal body of
        None \<Rightarrow> Raised UnicodeDecodeError (position s (i + length body + 2))
      | Some t \<Rightarrow> Returned (LStr t) (position s (i + length body + 2)))"
    by (simp add: parse_string_literal_def adv loop split: option.split)
  then show ?thesis
    using c lb rb
    by (simp add: Lexer_next_def assign_lexeme_def i_def[symmetric] split: option.split)
qed

lemma parse_string_literal_decodes:
  assumes a: "advance s = Returned u s1"
    and l: "parse_string_literal_loop 1 [] s1 = Returned buffer s2"
  shows "buffer \<noteq> [] \<and> last buffer = CLOSE_PARENTHESIS
     \<and> parse_string_literal s =
         (case utf8_decode (butlast buffer) of
            Some t \<Rightarrow> Returned (LStr t) s2
          | None \<Rightarrow>
              (case cp1252_decode (butlast buffer) of
                 Some t \<Rightarrow> Returned (LStr t) s2
               | None \<Rightarrow> Raised UnicodeDecodeError s2))"
proof -
  from string_loop_closes[OF l] have n: "buffer \<noteq> []" "last buffer = CLOSE_PARENTHESIS" by simp_all
  with a l show ?thesis
    by (simp add: parse_string_literal_def decode_string_literal_def split: option.split)
qed

lemma string_example_init:
  "Lexer_init [OPEN_PARENTHESIS, CHR 0x80, CLOSE_PARENTHESIS] 200 = Inr string_example"
  by (simp add: Lexer_init_Cons string_example_def)

lemma string_example_scan:
  "advance string_example = Returned () (lookahead_at string_example 1)"
  "parse_string_literal_loop 1 [] (lookahead_at string_example 1)
     = Returned [CHR 0x80, CLOSE_PARENTHESIS] (at_end string_example)"
  by code_simp+

lemma keeps_refl [simp]: "keeps s s"
  by (simp add: keeps_def)


lemma wb_Returned [simp]: "well_behaved s (Returned x s') = keeps s s'"
  by (simp add: well_behaved_def state_of_def)

lemma wb_Raised [simp]:
  "well_behaved s (Raised e s') = (keeps s s' \<and> (e = StopIteration \<longrightarrow> ended s'))"
  by (simp add: well_behaved_def state_of_def)



lemma keeps_currentLexeme [simp]: "keeps s (s'\<lparr>currentLexeme := l\<rparr>) = keeps s s'"
  by (simp add: keeps_def lexer_inv_def in_step_def)

lemma keeps_lexemesBuffer [simp]: "keeps s (s'\<lparr>lexemesBuffer := l\<rparr>) = keeps s s'"
  by (simp add: keeps_def lexer_inv_def in_step_def)


lemma Seekable_seek_frame [simp]:
  "sk_source (Seekable_seek off whence sk) = sk_source sk"
  "sk_len (Seekable_seek off whence sk) = sk_len sk"
  by (simp_all add: Seekable_seek_def Let_def)




































lemma two_integers_run:
  "(case Lexer_init ''1 2'' 200 of
      Inl e \<Rightarrow> None
    | Inr s0 \<Rightarrow>
        (case Lexer_next s0 of
           Raised e s' \<Rightarrow> None
         | Returned l1 s1 \<Rightarrow>
             (case Lexer_next s1 of
                Raised e s' \<Rightarrow> None
              | Returned l2 s2 \<Rightarrow> Some (l1, l2, s2, Lexer_next s2))))
   = Some (LInt 1, LInt 2, two_integers_end, Raised StopIteration two_integers_end)"
  by code_simp












lemma move_example_reached:
  "(case Lexer_init ''12 345 6'' 200 of Inl e \<Rightarrow> None | Inr s0 \<Rightarrow> Some (Lexer_next s0))
   = Some (Returned (LInt 12) move_example)"
  by code_simp


section \<open>The claims\<close>

text \<open>
  C9. Starting from a cursor that satisfies \<open>0 \<le> position \<le> length\<close> (as the constructor
  makes it), every sequence of \<^verbatim>\<open>read\<close>, \<^verbatim>\<open>seek\<close> and \<^verbatim>\<open>tell\<close> calls keeps the invariant, no
  call raises, and every \<^verbatim>\<open>tell\<close> answers a value in \<open>[0, length]\<close>; \<^verbatim>\<open>seek\<close> sets the position
  to the requested one clamped into \<open>[0, length]\<close>, under each of the three origins; \<^verbatim>\<open>read\<close>
  returns the bytes at the position (up to the count, all of them for a count \<open>\<le> 0\<close>) and
  advances the position by the number of bytes returned.
\<close>

theorem cursor_position_invariant:
  assumes "seekable_inv sk"
  shows "seekable_inv (Seekable_init obj)
       \<and> seekable_inv (snd (cursor_run ops sk))
       \<and> list_all (result_ok sk) (fst (cursor_run ops sk))
       \<and> Seekable_seek off whence sk =
           sk\<lparr>sk_pos := max 0 (min (sk_len sk)
             (if whence = 0 then off else if whence = 1 then sk_pos sk + off
              else sk_len sk + off))\<rparr>
       \<and> (\<exists>v. Seekable_read n sk = (Inr v, sk\<lparr>sk_pos := sk_pos sk + int (length v)\<rparr>)
             \<and> v = take (nat (if n \<le> 0 then sk_len sk else n))
                     (drop (nat (sk_pos sk)) (sk_source sk)))
       \<and> 0 \<le> Seekable_tell sk \<and> Seekable_tell sk \<le> sk_len sk"
proof -
  have a: "seekable_inv (snd (cursor_run ops sk))"
    and b: "list_all (result_ok sk) (fst (cursor_run ops sk))"
    using cursor_run_inv[OF assms, of ops] by simp_all
  have c: "Seekable_seek off whence sk =
           sk\<lparr>sk_pos := max 0 (min (sk_len sk)
             (if whence = 0 then off else if whence = 1 then sk_pos sk + off
              else sk_len sk + off))\<rparr>"
    using assms by (auto simp: Seekable_seek_def Let_def seekable_inv_def)
  have d: "\<exists>v. Seekable_read n sk = (Inr v, sk\<lparr>sk_pos := sk_pos sk + int (length v)\<rparr>)
             \<and> v = take (nat (if n \<le> 0 then sk_len sk else n))
                     (drop (nat (sk_pos sk)) (sk_source sk))"
    using Seekable_read_ok[OF assms, of n] by blast
  have e: "0 \<le> Seekable_tell sk \<and> Seekable_tell sk \<le> sk_len sk"
    using assms by (simp add: seekable_inv_def Seekable_tell_def)
  from Seekable_init_inv a b c d e show ?thesis by blast
qed

theorem cursor_position_invariant_witness:
  "seekable_inv (Seekable_init ''abcde'')
   \<and> fst (cursor_run [Read 2, Tell, Seek 100 0, Tell, Seek (- 3) 1, Read 0, Seek (- 9) 2, Read 1, Tell]
        (Seekable_init ''abcde''))
     = [Bytes ''ab'', Position 2, Done, Position 5, Done, Bytes ''cde'', Done, Bytes ''a'', Position 1]
   \<and> seekable_inv (snd (cursor_run
        [Read 2, Tell, Seek 100 0, Tell, Seek (- 3) 1, Read 0, Seek (- 9) 2, Read 1, Tell]
        (Seekable_init ''abcde'')))
   \<and> list_all (result_ok (Seekable_init ''abcde'')) (fst (cursor_run
        [Read 2, Tell, Seek 100 0, Tell, Seek (- 3) 1, Read 0, Seek (- 9) 2, Read 1, Tell]
        (Seekable_init ''abcde'')))"
proof -
  have h: "seekable_inv (Seekable_init ''abcde'')"
    by (simp add: seekable_inv_def Seekable_init_def)
  have v: "fst (cursor_run [Read 2, Tell, Seek 100 0, Tell, Seek (- 3) 1, Read 0, Seek (- 9) 2, Read 1, Tell]
        (Seekable_init ''abcde''))
     = [Bytes ''ab'', Position 2, Done, Position 5, Done, Bytes ''cde'', Done, Bytes ''a'', Position 1]"
    by (simp add: Seekable_init_def Seekable_read_def Seekable_seek_def Seekable_tell_def
        py_slice_def py_bound_def py_getitem_def Let_def)
  from cursor_position_invariant[OF h, where ops =
      "[Read 2, Tell, Seek 100 0, Tell, Seek (- 3) 1, Read 0, Seek (- 9) 2, Read 1, Tell]"]
  show ?thesis using h v by blast
qed

text \<open>
  C4. The constructor on the empty buffer: \<^verbatim>\<open>self.__source.read(1)\<close> returns \<^verbatim>\<open>b''\<close> and
  indexing it raises \<^verbatim>\<open>IndexError\<close>; no lexer is made, no sentinel is synthesised and
  \<^verbatim>\<open>ended\<close> is not set. On a buffer of at least one byte the constructor succeeds with the
  first byte as lookahead.
\<close>

theorem Lexer_init_empty:
  "Lexer_init [] cs = Inl IndexError
   \<and> Lexer_init (b # bs) cs =
       Inr \<lparr>source = \<lparr>sk_source = b # bs, sk_pos = 1, sk_len = int (length (b # bs))\<rparr>,
            lexer_length = int (length (b # bs)), current = b, lexemesBuffer = [],
            movesHistory = [], contextSize = cs, ended = False, currentLexeme = None\<rparr>"
  using Lexer_init_Nil[of cs] Lexer_init_Cons[of b bs cs] by simp

text \<open>
  C7. On the empty byte sequence no lexer can be made (the constructor raises
  \<^verbatim>\<open>IndexError\<close>), so no pull signals the end of the sequence. On every other sequence made
  of blanks and \<^verbatim>\<open>%\<close>-comments only, with or without a line feed after the last comment, the
  first pull raises \<^verbatim>\<open>StopIteration\<close>, no lexeme has been produced, and every later pull
  raises \<^verbatim>\<open>StopIteration\<close> again. All the loops involved are total functions.
\<close>

theorem blanks_and_comments_end_of_sequence:
  "first_pull [] cs = Inl IndexError
   \<and> (bs \<noteq> [] \<and> only_blanks_and_comments bs \<longrightarrow>
        (\<exists>s s'. Lexer_init bs cs = Inr s
               \<and> Lexer_next s = Raised StopIteration s'
               \<and> currentLexeme s' = None \<and> ended s'
               \<and> Lexer_next s' = Raised StopIteration s'))"
proof (intro conjI impI)
  show "first_pull [] cs = Inl IndexError" by (simp add: first_pull_def Lexer_init_Nil)
next
  assume a: "bs \<noteq> [] \<and> only_blanks_and_comments bs"
  then obtain s where i: "Lexer_init bs cs = Inr s" and inv: "lexer_inv s"
    and p: "s = position s 0" and b: "buffer_of s = bs" and l: "lexemesBuffer s = []"
    and c: "currentLexeme s = None"
    using Lexer_init_state[of bs cs] by blast
  from a b have "blanks_comments_scan False (drop 0 (buffer_of s))"
    by (simp add: only_blanks_and_comments_def)
  from blanks_comments_stop[OF inv _ this] p
  have r: "remove_blanks s = Raised StopIteration (at_end s)" by simp
  have n1: "Lexer_next s = Raised StopIteration (at_end s)"
    using l r by (simp add: Lexer_next_def)
  have n2: "Lexer_next (at_end s) = Raised StopIteration (at_end s)"
    using l by (simp add: Lexer_next_def remove_blanks_at_end)
  from i n1 n2 c show "\<exists>s s'. Lexer_init bs cs = Inr s
               \<and> Lexer_next s = Raised StopIteration s'
               \<and> currentLexeme s' = None \<and> ended s'
               \<and> Lexer_next s' = Raised StopIteration s'"
    by (intro exI[of _ s] exI[of _ "at_end s"]) simp
qed

theorem blanks_and_comments_end_of_sequence_witness:
  "''% comment ( /% ) blah'' \<noteq> [] \<and> only_blanks_and_comments ''% comment ( /% ) blah''
   \<and> (\<exists>s s'. Lexer_init ''% comment ( /% ) blah'' 200 = Inr s
             \<and> Lexer_next s = Raised StopIteration s'
             \<and> currentLexeme s' = None \<and> ended s'
             \<and> Lexer_next s' = Raised StopIteration s')"
proof -
  have h: "''% comment ( /% ) blah'' \<noteq> [] \<and> only_blanks_and_comments ''% comment ( /% ) blah''"
    by (simp add: only_blanks_and_comments_def BLANKS_def)
  from blanks_and_comments_end_of_sequence[of 200 "''% comment ( /% ) blah''"] h
  show ?thesis by blast
qed






text \<open>
  C5, as the code has it. A \<^verbatim>\<open><\<close> not followed by a second \<^verbatim>\<open><\<close> starts a hexadecimal string.
  Its tokenization skips blanks and collects hexadecimal digits up to the first byte that is
  neither. If that byte is \<^verbatim>\<open>>\<close> the lexeme is the digits collected; if it is another byte
  a \<^verbatim>\<open>PDFLexicalError\<close> is raised at it; if there is no such byte (the input ends first) the
  end-of-sequence signal \<^verbatim>\<open>StopIteration\<close> is raised, not a lexical error.
\<close>

theorem hexadecimal_string_errors:
  "lexer_inv s \<and> i < length (buffer_of s) \<and> buffer_of s ! i = OPEN_ANGLE_BRACKET
     \<and> (Suc i < length (buffer_of s) \<longrightarrow> buffer_of s ! Suc i \<noteq> OPEN_ANGLE_BRACKET)
     \<and> lexemesBuffer s = [] \<and> rest = drop (Suc i) (buffer_of s)
     \<and> k = Suc i + hex_body_length rest
   \<longrightarrow> (hex_stop rest = None \<longrightarrow>
          Lexer_next (lookahead_at s i) = Raised StopIteration (at_end s))
     \<and> (hex_stop rest = Some CLOSE_ANGLE_BRACKET \<longrightarrow>
          Lexer_next (lookahead_at s i) =
            Returned (PDFHexString (hex_digits rest))
              ((position s (Suc k))\<lparr>currentLexeme := Some (PDFHexString (hex_digits rest))\<rparr>))
     \<and> (\<forall>c. hex_stop rest = Some c \<and> c \<noteq> CLOSE_ANGLE_BRACKET \<longrightarrow>
          (\<exists>ctx rel. Lexer_next (lookahead_at s i) =
             Raised (PDFLexicalError ExpectedCloseAngle (int k + 1) ctx rel) (lookahead_at s k)))
     \<and> ((\<exists>m p ctx rel st. Lexer_next (lookahead_at s i) = Raised (PDFLexicalError m p ctx rel) st)
          \<longleftrightarrow> (\<exists>c. hex_stop rest = Some c \<and> c \<noteq> CLOSE_ANGLE_BRACKET))"
proof (intro impI)
  assume a: "lexer_inv s \<and> i < length (buffer_of s) \<and> buffer_of s ! i = OPEN_ANGLE_BRACKET
     \<and> (Suc i < length (buffer_of s) \<longrightarrow> buffer_of s ! Suc i \<noteq> OPEN_ANGLE_BRACKET)
     \<and> lexemesBuffer s = [] \<and> rest = drop (Suc i) (buffer_of s)
     \<and> k = Suc i + hex_body_length rest"
  then have inv: "lexer_inv s" and i: "i < length (buffer_of s)"
    and rest: "rest = drop (Suc i) (buffer_of s)" and k: "k = Suc i + hex_body_length rest"
    by simp_all
  have nx: "Lexer_next (lookahead_at s i) = assign_lexeme (parse_hexadecimal_string (lookahead_at s i))"
    using a Lexer_next_hexadecimal[of s i] by blast
  note ph = parse_hexadecimal_string_lookahead[OF inv i, folded rest, folded k]
  have c1: "hex_stop rest = None \<Longrightarrow>
          Lexer_next (lookahead_at s i) = Raised StopIteration (at_end s)"
    unfolding nx ph by (simp add: assign_lexeme_def)
  have c2: "hex_stop rest = Some CLOSE_ANGLE_BRACKET \<Longrightarrow>
          Lexer_next (lookahead_at s i) =
            Returned (PDFHexString (hex_digits rest))
              ((position s (Suc k))\<lparr>currentLexeme := Some (PDFHexString (hex_digits rest))\<rparr>)"
    unfolding nx ph by (simp add: assign_lexeme_def)
  have c3: "\<exists>ctx rel. Lexer_next (lookahead_at s i) =
             Raised (PDFLexicalError ExpectedCloseAngle (int k + 1) ctx rel) (lookahead_at s k)"
    if h: "hex_stop rest = Some c" "c \<noteq> CLOSE_ANGLE_BRACKET" for c
  proof -
    from hex_stop_Some[OF h(1)] have "hex_body_length rest < length rest" by simp
    then have "k < length (buffer_of s)" using i by (simp add: k rest)
    then have "lexer_inv (lookahead_at s k)" using inv by (rule lexer_inv_lookahead_at[rotated])
    from raise_lexer_error_state[OF this, of ExpectedCloseAngle]
    obtain ctx rel where
      "(raise_lexer_error ExpectedCloseAngle (lookahead_at s k) :: lexeme outcome)
         = Raised (PDFLexicalError ExpectedCloseAngle (int k + 1) ctx rel) (lookahead_at s k)"
      by auto
    with h show ?thesis unfolding nx ph by (simp add: assign_lexeme_def)
  qed
  have c4: "(\<exists>m p ctx rel st. Lexer_next (lookahead_at s i) = Raised (PDFLexicalError m p ctx rel) st)
          \<longleftrightarrow> (\<exists>c. hex_stop rest = Some c \<and> c \<noteq> CLOSE_ANGLE_BRACKET)"
  proof (cases "hex_stop rest")
    case None
    with c1 show ?thesis by simp
  next
    case (Some c)
    show ?thesis
    proof (cases "c = CLOSE_ANGLE_BRACKET")
      case True
      with Some c2 show ?thesis by simp
    next
      case False
      with Some c3[of c] show ?thesis by auto
    qed
  qed
  from c1 c2 c3 c4 show "(hex_stop rest = None \<longrightarrow>
          Lexer_next (lookahead_at s i) = Raised StopIteration (at_end s))
     \<and> (hex_stop rest = Some CLOSE_ANGLE_BRACKET \<longrightarrow>
          Lexer_next (lookahead_at s i) =
            Returned (PDFHexString (hex_digits rest))
              ((position s (Suc k))\<lparr>currentLexeme := Some (PDFHexString (hex_digits rest))\<rparr>))
     \<and> (\<forall>c. hex_stop rest = Some c \<and> c \<noteq> CLOSE_ANGLE_BRACKET \<longrightarrow>
          (\<exists>ctx rel. Lexer_next (lookahead_at s i) =
             Raised (PDFLexicalError ExpectedCloseAngle (int k + 1) ctx rel) (lookahead_at s k)))
     \<and> ((\<exists>m p ctx rel st. Lexer_next (lookahead_at s i) = Raised (PDFLexicalError m p ctx rel) st)
          \<longleftrightarrow> (\<exists>c. hex_stop rest = Some c \<and> c \<noteq> CLOSE_ANGLE_BRACKET))"
    by blast
qed

theorem hexadecimal_string_errors_witness:
  "lexer_inv hex_example \<and> 0 < length (buffer_of hex_example)
   \<and> buffer_of hex_example ! 0 = OPEN_ANGLE_BRACKET
   \<and> buffer_of hex_example ! Suc 0 \<noteq> OPEN_ANGLE_BRACKET
   \<and> lexemesBuffer hex_example = []
   \<and> hex_stop (drop (Suc 0) (buffer_of hex_example)) = Some CLOSE_ANGLE_BRACKET
   \<and> Lexer_init ''<4E 6f>'' 200 = Inr hex_example
   \<and> Lexer_next hex_example =
        Returned (PDFHexString ''4E6f'')
          ((at_end hex_example)\<lparr>currentLexeme := Some (PDFHexString ''4E6f'')\<rparr>)"
proof -
  have h: "lexer_inv hex_example" "0 < length (buffer_of hex_example)"
    "buffer_of hex_example ! 0 = OPEN_ANGLE_BRACKET"
    "buffer_of hex_example ! Suc 0 \<noteq> OPEN_ANGLE_BRACKET"
    "lexemesBuffer hex_example = []"
    by (simp_all add: hex_example_def lexer_inv_def seekable_inv_def)
  have b: "drop (Suc 0) (buffer_of hex_example) = ''4E 6f>''"
    by (simp add: hex_example_def)
  have st: "hex_stop ''4E 6f>'' = Some CLOSE_ANGLE_BRACKET"
    and dg: "hex_digits ''4E 6f>'' = ''4E6f''"
    and bl: "hex_body_length ''4E 6f>'' = 5"
    by (simp_all add: hex_stop_Cons hex_digits_Cons hex_body_length_Cons hex_body_byte_def
        BLANKS_def is_hex_digit_def hex_stop_def hex_digits_def hex_body_length_def)
  have l0: "lookahead_at hex_example 0 = hex_example"
    by (simp add: lookahead_at_def hex_example_def)
  have p7: "position hex_example (Suc (Suc 0 + 5)) = at_end hex_example"
    by (simp add: position_def hex_example_def)
  from hexadecimal_string_errors[of hex_example 0 "''4E 6f>''" "Suc 0 + 5"] h b st bl
  have "Lexer_next (lookahead_at hex_example 0) =
            Returned (PDFHexString (hex_digits ''4E 6f>''))
              ((position hex_example (Suc (Suc 0 + 5)))
                 \<lparr>currentLexeme := Some (PDFHexString (hex_digits ''4E 6f>''))\<rparr>)"
    by simp
  then show ?thesis using h b st hex_example_init unfolding l0 p7 dg by simp
qed

theorem hexadecimal_string_errors_counterexample:
  "(case Lexer_init ''<4E6F'' 200 of
      Inl e \<Rightarrow> None
    | Inr s \<Rightarrow> (case Lexer_next s of Raised e s' \<Rightarrow> Some (e, ended s') | Returned l s' \<Rightarrow> None))
   = Some (StopIteration, True)"
  by code_simp

text \<open>
  C6, as the code has it. Whenever the scan of a string literal succeeds, the bytes it has
  accumulated (without the closing parenthesis) are decoded as UTF-8 when they are
  well-formed UTF-8 and by code page 1252 otherwise. The second decoding raises
  \<^verbatim>\<open>UnicodeDecodeError\<close> exactly when one of the bytes is undefined in code page 1252
  (0x81, 0x8D, 0x8F, 0x90, 0x9D), so the literal is rejected for its encoding exactly when
  its bytes are not well-formed UTF-8 and contain one of these five. For a literal whose
  body has neither parentheses nor backslashes the accumulated bytes are the body.
\<close>

theorem string_literal_decoding:
  "(advance s = Returned u s1 \<and> parse_string_literal_loop 1 [] s1 = Returned buffer s2
      \<longrightarrow> buffer \<noteq> [] \<and> last buffer = CLOSE_PARENTHESIS
          \<and> parse_string_literal s =
              (case utf8_decode (butlast buffer) of
                 Some t \<Rightarrow> Returned (LStr t) s2
               | None \<Rightarrow>
                   (case cp1252_decode (butlast buffer) of
                      Some t \<Rightarrow> Returned (LStr t) s2
                    | None \<Rightarrow> Raised UnicodeDecodeError s2)))
   \<and> (lexer_inv s \<and> buffer_of s = pre @ OPEN_PARENTHESIS # body @ CLOSE_PARENTHESIS # post
        \<and> list_all plain_byte body \<and> lexemesBuffer s = []
      \<longrightarrow> Lexer_next (lookahead_at s (length pre)) =
            (case decode_string_literal body of
               None \<Rightarrow> Raised UnicodeDecodeError (position s (length pre + length body + 2))
             | Some t \<Rightarrow>
                 Returned (LStr t)
                   ((position s (length pre + length body + 2))\<lparr>currentLexeme := Some (LStr t)\<rparr>)))
   \<and> (cp1252_decode bs = None \<longleftrightarrow> list_ex cp1252_undefined bs)
   \<and> (decode_string_literal bs = None
        \<longleftrightarrow> utf8_decode bs = None \<and> list_ex cp1252_undefined bs)
   \<and> (utf8_decode bs \<noteq> None \<longrightarrow> decode_string_literal bs = utf8_decode bs)"
proof (intro conjI impI)
  assume "advance s = Returned u s1 \<and> parse_string_literal_loop 1 [] s1 = Returned buffer s2"
  then have r: "buffer \<noteq> [] \<and> last buffer = CLOSE_PARENTHESIS
     \<and> parse_string_literal s =
         (case utf8_decode (butlast buffer) of
            Some t \<Rightarrow> Returned (LStr t) s2
          | None \<Rightarrow>
              (case cp1252_decode (butlast buffer) of
                 Some t \<Rightarrow> Returned (LStr t) s2
               | None \<Rightarrow> Raised UnicodeDecodeError s2))"
    using parse_string_literal_decodes[of s u s1 buffer s2] by blast
  from r show "buffer \<noteq> []" by blast
  from r show "last buffer = CLOSE_PARENTHESIS" by blast
  from r show "parse_string_literal s =
         (case utf8_decode (butlast buffer) of
            Some t \<Rightarrow> Returned (LStr t) s2
          | None \<Rightarrow>
              (case cp1252_decode (butlast buffer) of
                 Some t \<Rightarrow> Returned (LStr t) s2
               | None \<Rightarrow> Raised UnicodeDecodeError s2))" by blast
next
  assume "lexer_inv s \<and> buffer_of s = pre @ OPEN_PARENTHESIS # body @ CLOSE_PARENTHESIS # post
        \<and> list_all plain_byte body \<and> lexemesBuffer s = []"
  then show "Lexer_next (lookahead_at s (length pre)) =
            (case decode_string_literal body of
               None \<Rightarrow> Raised UnicodeDecodeError (position s (length pre + length body + 2))
             | Some t \<Rightarrow>
                 Returned (LStr t)
                   ((position s (length pre + length body + 2))\<lparr>currentLexeme := Some (LStr t)\<rparr>))"
    using Lexer_next_plain_string[of s pre body post] by blast
next
  show "cp1252_decode bs = None \<longleftrightarrow> list_ex cp1252_undefined bs"
    by (rule cp1252_decode_None)
next
  show "decode_string_literal bs = None
        \<longleftrightarrow> utf8_decode bs = None \<and> list_ex cp1252_undefined bs"
    by (rule decode_string_literal_None)
next
  assume "utf8_decode bs \<noteq> None"
  then show "decode_string_literal bs = utf8_decode bs"
    by (auto simp: decode_string_literal_def)
qed

theorem string_literal_decoding_witness:
  "advance string_example = Returned () (lookahead_at string_example 1)
   \<and> parse_string_literal_loop 1 [] (lookahead_at string_example 1)
       = Returned [CHR 0x80, CLOSE_PARENTHESIS] (at_end string_example)
   \<and> lexer_inv string_example
   \<and> buffer_of string_example = [] @ OPEN_PARENTHESIS # [CHR 0x80] @ CLOSE_PARENTHESIS # []
   \<and> list_all plain_byte [CHR 0x80] \<and> lexemesBuffer string_example = []
   \<and> utf8_decode [CHR 0x80] = None \<and> cp1252_decode [CHR 0x80] = Some [0x20AC]
   \<and> parse_string_literal string_example = Returned (LStr [0x20AC]) (at_end string_example)
   \<and> Lexer_next (lookahead_at string_example 0) =
        Returned (LStr [0x20AC]) ((at_end string_example)\<lparr>currentLexeme := Some (LStr [0x20AC])\<rparr>)"
proof -
  have h: "lexer_inv string_example"
    "buffer_of string_example = [] @ OPEN_PARENTHESIS # [CHR 0x80] @ CLOSE_PARENTHESIS # []"
    "list_all plain_byte [CHR 0x80]" "lexemesBuffer string_example = []"
    by (simp_all add: string_example_def lexer_inv_def seekable_inv_def plain_byte_def)
  have d: "utf8_decode [CHR 0x80] = None" "cp1252_decode [CHR 0x80] = Some [0x20AC]"
    "decode_string_literal [CHR 0x80] = Some [0x20AC]"
    by (simp_all add: decode_string_literal_def cp1252_char_def cp1252_undefined_def
        cp1252_table_def)
  have p: "position string_example (length ([]::byte list) + length [CHR 0x80 :: byte] + 2)
           = at_end string_example"
    by (simp add: position_def string_example_def)
  from string_literal_decoding[of string_example "()" "lookahead_at string_example 1"
      "[CHR 0x80, CLOSE_PARENTHESIS]" "at_end string_example" "[]" "[CHR 0x80]" "[]"]
    string_example_scan h
  show ?thesis unfolding p
    by (simp add: d cp1252_char_def cp1252_undefined_def cp1252_table_def)
qed

theorem string_literal_decoding_counterexample:
  "(case Lexer_init [OPEN_PARENTHESIS, CHR 0x81, CLOSE_PARENTHESIS] 200 of
      Inl e \<Rightarrow> None
    | Inr s \<Rightarrow> (case Lexer_next s of Raised e s' \<Rightarrow> Some e | Returned l s' \<Rightarrow> None))
   = Some UnicodeDecodeError"
  by code_simp







end
